theory Spec2Isabelle
  imports Main "HOL-Library.Sublist" "HOL-Library.Char_ord" "HOL-Library.List_Lexorder"
begin

text \<open>
  A shallow embedding of the keyword-driven snippet generator \<^verbatim>\<open>src/snippet_gen.cpp\<close>: the
  token normalizer, the occurrence resolver, the collision-safe declaration of variables,
  the placeholder expansion of user keywords, the program assembler, the loader and the
  writer of the keyword file, and the interactive loop of \<^verbatim>\<open>main\<close> with its commands.
  A string is the list of its bytes, a \<^verbatim>\<open>std::map\<close> the list of its entries in key order,
  the standard input a list of lines and the keyword file an optional text. The handlers of
  the builtin keywords are a parameter of the dispatch.
\<close>

section \<open>Characters and small string helpers\<close>

text \<open>
  The program never calls \<^verbatim>\<open>setlocale\<close>, so \<^verbatim>\<open>std::isspace\<close>, \<^verbatim>\<open>std::ispunct\<close> and
  \<^verbatim>\<open>std::tolower\<close> are those of the "C" locale, applied to the byte read as
  \<^verbatim>\<open>unsigned char\<close>. A \<^typ>\<open>char\<close> of HOL is such a byte.
\<close>

definition isspace :: "char \<Rightarrow> bool" where
  "isspace c = (let n = (of_char c :: nat) in n = 32 \<or> (9 \<le> n \<and> n \<le> 13))"

definition ispunct :: "char \<Rightarrow> bool" where
  "ispunct c = (let n = (of_char c :: nat) in
     (33 \<le> n \<and> n \<le> 47) \<or> (58 \<le> n \<and> n \<le> 64) \<or> (91 \<le> n \<and> n \<le> 96) \<or> (123 \<le> n \<and> n \<le> 126))"

definition isalpha :: "char \<Rightarrow> bool" where
  "isalpha c = (let n = (of_char c :: nat) in (65 \<le> n \<and> n \<le> 90) \<or> (97 \<le> n \<and> n \<le> 122))"

definition tolower :: "char \<Rightarrow> char" where
  "tolower c = (let n = (of_char c :: nat) in if 65 \<le> n \<and> n \<le> 90 then char_of (n + 32) else c)"

text \<open>\<^verbatim>\<open>trim\<close>: the index \<^verbatim>\<open>b\<close> walks over leading white space, then \<^verbatim>\<open>e\<close> walks back
  over trailing white space of what is left, and the substring between them is returned.\<close>

definition trim :: "string \<Rightarrow> string" where
  "trim s = rev (dropWhile isspace (rev (dropWhile isspace s)))"

text \<open>\<^verbatim>\<open>normalize_token\<close>: the same two walks with \<^verbatim>\<open>ispunct\<close>, then every byte lowercased.\<close>

definition normalize_token :: "string \<Rightarrow> string" where
  "normalize_token token = map tolower (rev (dropWhile ispunct (rev (dropWhile ispunct token))))"

text \<open>\<^verbatim>\<open>tokenize\<close>: \<^verbatim>\<open>while (iss >> t) out.push_back(t)\<close>. The extraction skips white space
  and reads up to the next white space; \<open>cur\<close> is the token being read.\<close>

fun tokenize_from :: "string \<Rightarrow> string \<Rightarrow> string list" where
  "tokenize_from cur [] = (if cur = [] then [] else [cur])"
| "tokenize_from cur (c # cs) =
     (if isspace c then (if cur = [] then tokenize_from [] cs else cur # tokenize_from [] cs)
      else tokenize_from (cur @ [c]) cs)"

definition tokenize :: "string \<Rightarrow> string list" where
  "tokenize line = tokenize_from [] line"

section \<open>The builtin keyword set\<close>

definition cpp17_keywords :: "string list" where
  "cpp17_keywords =
    [''alignas'', ''alignof'', ''and'', ''and_eq'', ''asm'', ''auto'', ''bitand'', ''bitor'', ''bool'', ''break'',
     ''case'', ''catch'', ''char'', ''char16_t'', ''char32_t'', ''class'', ''compl'', ''const'', ''constexpr'', ''const_cast'',
     ''continue'', ''decltype'', ''default'', ''delete'', ''do'', ''double'', ''dynamic_cast'', ''else'', ''enum'', ''explicit'',
     ''export'', ''extern'', ''false'', ''float'', ''for'', ''friend'', ''goto'', ''if'', ''inline'', ''int'',
     ''long'', ''mutable'', ''namespace'', ''new'', ''noexcept'', ''not'', ''not_eq'', ''nullptr'', ''operator'', ''or'',
     ''or_eq'', ''private'', ''protected'', ''public'', ''register'', ''reinterpret_cast'', ''return'', ''short'', ''signed'', ''sizeof'',
     ''static'', ''static_assert'', ''static_cast'', ''struct'', ''switch'', ''template'', ''this'', ''thread_local'', ''throw'', ''true'',
     ''try'', ''typedef'', ''typeid'', ''typename'', ''union'', ''unsigned'', ''using'', ''virtual'', ''void'', ''volatile'',
     ''wchar_t'', ''while'', ''xor'', ''xor_eq'']"

definition is_cpp17_keyword :: "string \<Rightarrow> bool" where
  "is_cpp17_keyword s = (s \<in> set cpp17_keywords)"

section \<open>Containers\<close>

text \<open>
  A \<^verbatim>\<open>std::map<string, V>\<close> is the list of its entries in iteration order, which is the
  ascending order of the keys (bytes compared as unsigned, shorter prefix first: the
  lexicographic order of \<^typ>\<open>string\<close>). \<open>map_find\<close> is \<^verbatim>\<open>find\<close>, \<open>map_assign\<close> is
  \<^verbatim>\<open>m[k] = v\<close> and \<open>map_erase\<close> is \<^verbatim>\<open>erase\<close>.
\<close>

type_synonym 'v std_map = "(string \<times> 'v) list"

definition map_find :: "string \<Rightarrow> 'v std_map \<Rightarrow> 'v option" where
  "map_find k m = map_of m k"

definition map_has :: "string \<Rightarrow> 'v std_map \<Rightarrow> bool" where
  "map_has k m = (case map_find k m of None \<Rightarrow> False | Some _ \<Rightarrow> True)"

fun map_assign :: "string \<Rightarrow> 'v \<Rightarrow> 'v std_map \<Rightarrow> 'v std_map" where
  "map_assign k v [] = [(k, v)]"
| "map_assign k v ((k', v') # m) =
     (if k < k' then (k, v) # (k', v') # m
      else if k = k' then (k, v) # m
      else (k', v') # map_assign k v m)"

definition map_erase :: "string \<Rightarrow> 'v std_map \<Rightarrow> 'v std_map" where
  "map_erase k m = filter (\<lambda>kv. fst kv \<noteq> k) m"

definition map_keys :: "'v std_map \<Rightarrow> string list" where
  "map_keys m = map fst m"

text \<open>The invariant of a \<^verbatim>\<open>std::map\<close>: keys strictly ascending.\<close>

definition map_ok :: "'v std_map \<Rightarrow> bool" where
  "map_ok m = sorted_wrt (<) (map fst m)"

section \<open>User keywords\<close>

record UserKeyword =
  snippet :: string
  params :: "(string \<times> string) list"

section \<open>Occurrences\<close>

text \<open>
  The loop of \<^verbatim>\<open>main\<close> that builds \<^verbatim>\<open>occurrences\<close>: \<open>i\<close> is the index of the token at
  the head of the remaining tokens, and the recorded position is \<^verbatim>\<open>i + 1\<close>. The position is
  an \<^verbatim>\<open>int\<close> in the source; it is a natural number here, which is exact as long as a line
  has fewer tokens than \<^verbatim>\<open>INT_MAX\<close>.
\<close>

fun build_occurrences :: "UserKeyword std_map \<Rightarrow> nat \<Rightarrow> string list \<Rightarrow> (string \<times> nat) list" where
  "build_occurrences user_keywords i [] = []"
| "build_occurrences user_keywords i (t # ts) =
     (let norm = normalize_token t in
      if norm = [] then build_occurrences user_keywords (Suc i) ts
      else if is_cpp17_keyword norm \<or> map_has norm user_keywords
           then (norm, i + 1) # build_occurrences user_keywords (Suc i) ts
           else build_occurrences user_keywords (Suc i) ts)"

definition occurrences_of_line :: "UserKeyword std_map \<Rightarrow> string \<Rightarrow> (string \<times> nat) list" where
  "occurrences_of_line user_keywords line = build_occurrences user_keywords 0 (tokenize line)"

text \<open>The resolver's contract in the specification's words: a token is recognized when its
  normalized form is not empty and names a builtin keyword or a stored macro.\<close>

definition recognized :: "UserKeyword std_map \<Rightarrow> string \<Rightarrow> bool" where
  "recognized user_keywords t =
     (normalize_token t \<noteq> [] \<and>
      (is_cpp17_keyword (normalize_token t) \<or> map_has (normalize_token t) user_keywords))"

section \<open>Generation context and collision-safe declaration\<close>

text \<open>\<^verbatim>\<open>std::to_string\<close> of a non-negative \<^verbatim>\<open>int\<close>: its decimal digits.\<close>

definition digit_char :: "nat \<Rightarrow> char" where
  "digit_char d = char_of (48 + d)"

fun to_string :: "nat \<Rightarrow> string" where
  "to_string n = (if n < 10 then [digit_char n] else to_string (n div 10) @ [digit_char (n mod 10)])"

declare to_string.simps [simp del]

record Context =
  vars :: "string std_map"
  types :: "string list"
  last_var :: string
  last_type :: string
  meta :: "string std_map"

text \<open>
  The loop of \<^verbatim>\<open>declare_variable\<close>:
  \<^verbatim>\<open>while (ctx.vars.find(name) != ctx.vars.end()) name = base_name + std::to_string(suffix++);\<close>
  It ends because a map has finitely many keys, all of bounded length, and the decimal
  rendering of the counter grows beyond every length; \<open>keys_bound\<close> is such a bound.
  The counter is an \<^verbatim>\<open>int\<close> in the source and a natural number here.
\<close>

definition keys_bound :: "'v std_map \<Rightarrow> nat" where
  "keys_bound m = sum_list (map (\<lambda>kv. length (fst kv)) m)"

lemma to_string_bound: "n < 10 ^ length (to_string n)"
proof (induction n rule: to_string.induct)
  case (1 n)
  show ?case
  proof (cases "n < 10")
    case True
    then show ?thesis by (subst to_string.simps) simp
  next
    case False
    from 1 False have "n div 10 < 10 ^ length (to_string (n div 10))" by simp
    then have "n < 10 * 10 ^ length (to_string (n div 10))" by linarith
    with False show ?thesis by (subst to_string.simps) simp
  qed
qed

lemma map_has_iff: "map_has k m \<longleftrightarrow> k \<in> set (map fst m)"
  by (auto simp: map_has_def map_find_def map_of_eq_None_iff split: option.splits)
     (metis map_of_eq_None_iff option.distinct(1) image_eqI fst_conv)+

lemma map_has_length: "map_has k m \<Longrightarrow> length k \<le> keys_bound m"
  unfolding map_has_iff keys_bound_def
  by (induction m) (auto simp: image_iff intro: trans_le_add2)

lemma map_has_suffix_bound:
  assumes "map_has (base @ to_string k) m"
  shows "k < 10 ^ keys_bound m"
proof -
  have "length (to_string k) \<le> keys_bound m"
    using map_has_length [OF assms] by simp
  then have "(10::nat) ^ length (to_string k) \<le> 10 ^ keys_bound m"
    by (simp add: power_increasing)
  with to_string_bound [of k] show ?thesis by linarith
qed

function declare_loop :: "string std_map \<Rightarrow> string \<Rightarrow> string \<Rightarrow> nat \<Rightarrow> string" where
  "declare_loop vs base_name name sfx =
     (if map_has name vs then declare_loop vs base_name (base_name @ to_string sfx) (Suc sfx)
      else name)"
  by pat_completeness auto
termination
proof (relation "measure (\<lambda>(vs, base_name, name, sfx).
         2 * (10 ^ keys_bound vs - sfx) + (if map_has name vs then 1 else 0))", goal_cases)
  case 1
  show ?case by simp
next
  case (2 vs base_name name sfx)
  show ?case
  proof (cases "map_has (base_name @ to_string sfx) vs")
    case True
    from map_has_suffix_bound [OF True] 2 True show ?thesis by simp
  next
    case False
    with 2 show ?thesis by simp
  qed
qed

declare declare_loop.simps [simp del]

definition declare_variable :: "Context \<Rightarrow> string \<Rightarrow> string \<Rightarrow> string \<Rightarrow> string \<times> Context" where
  "declare_variable ctx type base_name init =
     (let name = declare_loop (vars ctx) base_name base_name 1;
          ctx' = ctx\<lparr>vars := map_assign name type (vars ctx), last_var := name\<rparr>
      in (type @ '' '' @ name @ '' = '' @ init @ '';'', ctx'))"

section \<open>String search and replacement\<close>

text \<open>\<open>find_str tok s\<close> is \<^verbatim>\<open>s.find(tok)\<close>: the least index at which \<open>tok\<close> occurs in \<open>s\<close>,
  \<open>None\<close> for \<^verbatim>\<open>npos\<close>. \<open>find_from s tok pos\<close> is \<^verbatim>\<open>s.find(tok, pos)\<close>.\<close>

fun find_str :: "string \<Rightarrow> string \<Rightarrow> nat option" where
  "find_str tok [] = (if tok = [] then Some 0 else None)"
| "find_str tok (c # cs) =
     (if prefix tok (c # cs) then Some 0 else map_option Suc (find_str tok cs))"

definition find_from :: "string \<Rightarrow> string \<Rightarrow> nat \<Rightarrow> nat option" where
  "find_from s tok pos =
     (if length s < pos then None else map_option (\<lambda>i. pos + i) (find_str tok (drop pos s)))"

text \<open>\<open>rfind_str tok s\<close> is \<^verbatim>\<open>s.rfind(tok)\<close>: the greatest index at which \<open>tok\<close> occurs.\<close>

fun rfind_str :: "string \<Rightarrow> string \<Rightarrow> nat option" where
  "rfind_str tok [] = (if tok = [] then Some 0 else None)"
| "rfind_str tok (c # cs) =
     (case rfind_str tok cs of
        Some i \<Rightarrow> Some (Suc i)
      | None \<Rightarrow> if prefix tok (c # cs) then Some 0 else None)"

lemma find_str_bound: "find_str tok s = Some i \<Longrightarrow> i + length tok \<le> length s"
proof (induction s arbitrary: i)
  case Nil
  then show ?case by (simp split: if_splits)
next
  case (Cons c cs)
  show ?case
  proof (cases "prefix tok (c # cs)")
    case True
    with Cons.prems prefix_length_le [OF True] show ?thesis by simp
  next
    case False
    with Cons.prems obtain j where "find_str tok cs = Some j" "i = Suc j" by auto
    with Cons.IH show ?thesis by simp
  qed
qed

text \<open>
  \<^verbatim>\<open>replace_all\<close>: after the guard \<^verbatim>\<open>if (token.empty()) return;\<close> the loop
  \<^verbatim>\<open>while ((pos = s.find(token, pos)) != npos) { s.replace(pos, token.size(), repl); pos += repl.size(); }\<close>
  rewrites \<open>s\<close> in place and resumes the search behind the inserted text. The loop function
  repeats the guard, which is what makes it total.
\<close>

function replace_all_loop :: "string \<Rightarrow> string \<Rightarrow> string \<Rightarrow> nat \<Rightarrow> string" where
  "replace_all_loop s token repl pos =
     (if token = [] then s
      else case find_from s token pos of
             None \<Rightarrow> s
           | Some p \<Rightarrow> replace_all_loop (take p s @ repl @ drop (p + length token) s) token repl
                         (p + length repl))"
  by pat_completeness auto
termination
proof (relation "measure (\<lambda>(s, token, repl, pos). length s - pos)", goal_cases)
  case 1
  show ?case by simp
next
  case (2 s token repl pos p)
  from 2(2) obtain i where i: "find_str token (drop pos s) = Some i" "p = pos + i" "pos \<le> length s"
    by (auto simp: find_from_def split: if_splits)
  from find_str_bound [OF i(1)] have "i + length token \<le> length s - pos" by simp
  with i 2(1) show ?case by (cases token) auto
qed

declare replace_all_loop.simps [simp del]

definition replace_all :: "string \<Rightarrow> string \<Rightarrow> string \<Rightarrow> string" where
  "replace_all s token repl = (if token = [] then s else replace_all_loop s token repl 0)"

text \<open>
  The substitution in the specification's words: every literal occurrence of the token,
  met from left to right, is replaced, and the text put in its place is not searched again.
\<close>

function subst_all :: "string \<Rightarrow> string \<Rightarrow> string \<Rightarrow> string" where
  "subst_all tok repl s =
     (if tok = [] \<or> s = [] then s
      else if prefix tok s then repl @ subst_all tok repl (drop (length tok) s)
      else hd s # subst_all tok repl (tl s))"
  by pat_completeness auto
termination
  by (relation "measure (\<lambda>(tok, repl, s). length s)") (auto simp: neq_Nil_conv)

declare subst_all.simps [simp del]

text \<open>\<^verbatim>\<open>while (std::getline(is, line, delim))\<close>: each call takes the bytes up to the next
  delimiter and consumes the delimiter; it fails once nothing is left.\<close>

function getlines :: "char \<Rightarrow> string \<Rightarrow> string list" where
  "getlines d s =
     (if s = [] then []
      else takeWhile (\<lambda>c. c \<noteq> d) s # getlines d (drop 1 (dropWhile (\<lambda>c. c \<noteq> d) s)))"
  by pat_completeness auto
termination
proof (relation "measure (\<lambda>(d, s). length s)", goal_cases)
  case 1
  show ?case by simp
next
  case (2 d s)
  have le: "length (dropWhile (\<lambda>c. c \<noteq> d) s) \<le> length s"
    by (rule length_dropWhile_le)
  from 2 have pos: "0 < length s" by simp
  have "length (drop 1 (dropWhile (\<lambda>c. c \<noteq> d) s))
          = length (dropWhile (\<lambda>c. c \<noteq> d) s) - 1"
    by simp
  with le pos have "length (drop 1 (dropWhile (\<lambda>c. c \<noteq> d) s)) < length s"
    by linarith
  then show ?case by simp
qed

declare getlines.simps [simp del]

definition newline :: char where
  "newline = CHR 0x0A"

section \<open>Expansion of a user keyword\<close>

record Parts =
  p_includes :: "string list"
  p_top :: "string list"
  p_body :: "string list"

definition empty_parts :: Parts where
  "empty_parts = \<lparr>p_includes = [], p_top = [], p_body = []\<rparr>"

definition append_parts :: "Parts \<Rightarrow> Parts \<Rightarrow> Parts" where
  "append_parts acc p =
     \<lparr>p_includes = p_includes acc @ p_includes p, p_top = p_top acc @ p_top p,
      p_body = p_body acc @ p_body p\<rparr>"

text \<open>The first loop of \<^verbatim>\<open>parts_from_user_snippet_with_params\<close>: one \<^verbatim>\<open>replace_all\<close> per
  declared parameter, in order, with the supplied value or else the stored default.\<close>

fun substitute_params :: "(string \<times> string) list \<Rightarrow> string std_map \<Rightarrow> string \<Rightarrow> string" where
  "substitute_params [] values transformed = transformed"
| "substitute_params ((pname, pdef) # ps) values transformed =
     (let val = (case map_find pname values of Some v \<Rightarrow> v | None \<Rightarrow> pdef)
      in substitute_params ps values (replace_all transformed (''{'' @ pname @ ''}'') val))"

text \<open>The second loop: include lines go to the includes, every other line to the body.\<close>

fun scan_snippet_lines :: "string list \<Rightarrow> Parts \<Rightarrow> Parts" where
  "scan_snippet_lines [] p = p"
| "scan_snippet_lines (line # ls) p =
     (let tline = trim line in
      if prefix ''#include'' tline then
        (let rem = trim (drop 8 tline)
         in scan_snippet_lines ls (if rem \<noteq> [] then p\<lparr>p_includes := p_includes p @ [rem]\<rparr> else p))
      else if prefix ''# include'' tline then
        (let rem = trim (drop 8 tline)
         in scan_snippet_lines ls (if rem \<noteq> [] then p\<lparr>p_includes := p_includes p @ [rem]\<rparr> else p))
      else scan_snippet_lines ls (p\<lparr>p_body := p_body p @ [line]\<rparr>))"

definition main_error_lines :: "string \<Rightarrow> string list" where
  "main_error_lines tag =
     [''// ('' @ tag @ '') ERROR: user snippet contains '' @ [CHR 0x27] @ ''int main(''
        @ [CHR 0x27] @ ''. This is disallowed for custom keywords.'',
      ''// Please redefine this custom keyword without a main() function.'']"

definition snippet_header :: "string \<Rightarrow> string" where
  "snippet_header tag = ''// ('' @ tag @ '') User-defined snippet (with parameter substitution):''"

definition parts_from_user_snippet_with_params :: "UserKeyword \<Rightarrow> string std_map \<Rightarrow> string \<Rightarrow> Parts" where
  "parts_from_user_snippet_with_params uk values tag =
     (let transformed = substitute_params (params uk) values (snippet uk) in
      if find_str ''int main('' transformed \<noteq> None
      then empty_parts\<lparr>p_body := main_error_lines tag\<rparr>
      else (let p = scan_snippet_lines (getlines newline transformed) empty_parts
            in p\<lparr>p_body := snippet_header tag # p_body p\<rparr>))"

section \<open>Program assembly\<close>

definition normalize_include_for_key :: "string \<Rightarrow> string" where
  "normalize_include_for_key raw =
     (let s = trim raw in
      if s = [] then s
      else if hd s = CHR ''<'' \<and> last s = CHR ''>'' then s
      else if hd s = CHR 0x22 \<and> last s = CHR 0x22 then s
      else ''<'' @ s @ ''>'')"

text \<open>\<^verbatim>\<open>uniq.insert(key)\<close> on the \<^verbatim>\<open>std::set<string>\<close>, held as its ascending list.\<close>

fun set_insert :: "string \<Rightarrow> string list \<Rightarrow> string list" where
  "set_insert k [] = [k]"
| "set_insert k (x # xs) =
     (if k < x then k # x # xs else if k = x then x # xs else x # set_insert k xs)"

fun collect_include_keys :: "string list \<Rightarrow> string list \<Rightarrow> string list" where
  "collect_include_keys [] uniq = uniq"
| "collect_include_keys (h # hs) uniq =
     (let key = normalize_include_for_key h in
      if key = [] then collect_include_keys hs uniq
      else if key = ''<iostream>'' then collect_include_keys hs uniq
      else collect_include_keys hs (set_insert key uniq))"

definition make_program_from_body_lines :: "string list \<Rightarrow> string list \<Rightarrow> string list \<Rightarrow> string" where
  "make_program_from_body_lines body_lines extra_includes extra_top =
     ''#include <iostream>'' @ [newline]
     @ concat (map (\<lambda>h. ''#include '' @ h @ [newline]) (collect_include_keys extra_includes []))
     @ [newline]
     @ concat (map (\<lambda>t. t @ [newline]) extra_top)
     @ [newline] @ ''using namespace std;'' @ [newline, newline]
     @ ''int main(int argc, char *argv[]) {'' @ [newline]
     @ concat (map (\<lambda>line. ''    '' @ line @ [newline]) body_lines)
     @ ''    return 0;'' @ [newline]
     @ ''}'' @ [newline]"

text \<open>The include part as the specification words it: the aggregated includes, deduplicated
  by exact textual match, each kept in the form in which it was first seen.\<close>

definition dedup_exact :: "string list \<Rightarrow> string list" where
  "dedup_exact hs = foldl (\<lambda>seen h. if h \<in> set seen then seen else seen @ [h]) [] hs"

definition assemble_as_specified :: "string list \<Rightarrow> string list \<Rightarrow> string list \<Rightarrow> string" where
  "assemble_as_specified body_lines extra_includes extra_top =
     ''#include <iostream>'' @ [newline]
     @ concat (map (\<lambda>h. ''#include '' @ h @ [newline]) (dedup_exact extra_includes))
     @ [newline]
     @ concat (map (\<lambda>t. t @ [newline]) extra_top)
     @ [newline] @ ''using namespace std;'' @ [newline, newline]
     @ ''int main(int argc, char *argv[]) {'' @ [newline]
     @ concat (map (\<lambda>line. ''    '' @ line @ [newline]) body_lines)
     @ ''    return 0;'' @ [newline]
     @ ''}'' @ [newline]"

text \<open>The keys that the assembler keeps: not empty and not the core include.\<close>

definition include_key_ok :: "string \<Rightarrow> bool" where
  "include_key_ok k = (k \<noteq> [] \<and> k \<noteq> ''<iostream>'')"

section \<open>Persistence of user keywords\<close>

definition split_csv :: "string \<Rightarrow> string list" where
  "split_csv s = map trim (getlines CHR '','' s)"

text \<open>
  Both marker branches of the loader compute \<^verbatim>\<open>colon = line.find(':')\<close> and
  \<^verbatim>\<open>last = line.rfind("===")\<close> and, when both exist and \<^verbatim>\<open>last > colon + 1\<close>, take
  \<^verbatim>\<open>trim(line.substr(colon + 1, last - (colon + 1)))\<close>.
\<close>

definition marker_payload :: "string \<Rightarrow> string option" where
  "marker_payload line =
     (case find_str '':'' line of
        None \<Rightarrow> None
      | Some colon \<Rightarrow>
          (case rfind_str ''==='' line of
             None \<Rightarrow> None
           | Some last_pos \<Rightarrow>
               if colon + 1 < last_pos
               then Some (trim (take (last_pos - (colon + 1)) (drop (colon + 1) line)))
               else None))"

text \<open>The loop over the comma-separated parts of a \<open>PARAMS\<close> line; \<open>acc\<close> is
  \<^verbatim>\<open>current_params\<close>.\<close>

fun parse_param_items :: "string list \<Rightarrow> (string \<times> string) list \<Rightarrow> (string \<times> string) list" where
  "parse_param_items [] acc = acc"
| "parse_param_items (p # ps) acc =
     (let eq = find_str ''='' p;
          name = trim (case eq of None \<Rightarrow> p | Some e \<Rightarrow> take e p);
          def = trim (case eq of None \<Rightarrow> [] | Some e \<Rightarrow> drop (e + 1) p)
      in parse_param_items ps (if name \<noteq> [] then acc @ [(name, def)] else acc))"

record load_state =
  out_map :: "UserKeyword std_map"
  current_key :: string
  current_params :: "(string \<times> string) list"
  buffer :: string
  in_entry :: bool

definition load_init :: load_state where
  "load_init = \<lparr>out_map = [], current_key = [], current_params = [], buffer = [], in_entry = False\<rparr>"

text \<open>One turn of \<^verbatim>\<open>while (std::getline(ifs, line))\<close> in \<^verbatim>\<open>load_user_keywords\<close>.\<close>

definition load_step :: "load_state \<Rightarrow> string \<Rightarrow> load_state" where
  "load_step st line =
     (if \<not> in_entry st then
        (if prefix ''===KEYWORD:'' line then
           (case marker_payload line of
              Some key \<Rightarrow> st\<lparr>current_key := key, current_params := [], buffer := [], in_entry := True\<rparr>
            | None \<Rightarrow> st)
         else st)
      else if prefix ''===PARAMS:'' line then
        (case marker_payload line of
           Some paramstr \<Rightarrow>
             if paramstr \<noteq> []
             then st\<lparr>current_params := parse_param_items (split_csv paramstr) (current_params st)\<rparr>
             else st
         | None \<Rightarrow> st)
      else if line = ''===END==='' then
        st\<lparr>out_map := map_assign (trim (current_key st))
                      \<lparr>snippet = buffer st, params = current_params st\<rparr> (out_map st),
           in_entry := False, current_key := [], current_params := [], buffer := []\<rparr>
      else st\<lparr>buffer := buffer st @ line @ [newline]\<rparr>)"

text \<open>The commit behind the loop, for a file that ends inside an entry.\<close>

definition load_finish :: "load_state \<Rightarrow> UserKeyword std_map" where
  "load_finish st =
     (if in_entry st \<and> current_key st \<noteq> []
      then map_assign (trim (current_key st))
             \<lparr>snippet = buffer st, params = current_params st\<rparr> (out_map st)
      else out_map st)"

definition load_lines :: "string list \<Rightarrow> UserKeyword std_map" where
  "load_lines ls = load_finish (foldl load_step load_init ls)"

text \<open>\<^verbatim>\<open>load_user_keywords\<close>: the file is its text when it can be opened and \<open>None\<close> when it
  cannot; the map is cleared first, so an unreadable file gives the empty map.\<close>

definition load_user_keywords :: "string option \<Rightarrow> UserKeyword std_map" where
  "load_user_keywords file =
     (case file of None \<Rightarrow> [] | Some text \<Rightarrow> load_lines (getlines newline text))"

text \<open>The writer. \<open>write_params\<close> is the loop over the parameters with its \<^verbatim>\<open>first\<close> flag.\<close>

fun write_params :: "bool \<Rightarrow> (string \<times> string) list \<Rightarrow> string" where
  "write_params first [] = []"
| "write_params first (pp # pps) =
     (if \<not> first then '','' else []) @ fst pp @ ''='' @ snd pp @ write_params False pps"

definition write_entry :: "string \<times> UserKeyword \<Rightarrow> string" where
  "write_entry kv =
     ''===KEYWORD:'' @ fst kv @ ''==='' @ [newline]
     @ (if params (snd kv) \<noteq> []
        then ''===PARAMS:'' @ write_params True (params (snd kv)) @ ''==='' @ [newline]
        else [])
     @ snippet (snd kv)
     @ (if snippet (snd kv) \<noteq> [] \<and> last (snippet (snd kv)) \<noteq> newline then [newline] else [])
     @ ''===END==='' @ [newline]"

definition save_text :: "UserKeyword std_map \<Rightarrow> string" where
  "save_text m = concat (map write_entry m)"

text \<open>\<^verbatim>\<open>save_user_keywords\<close>: \<open>writable\<close> says whether the file can be opened for writing;
  the result is the success flag and the new content of the file (truncated and rewritten),
  or the old content when it could not be opened.\<close>

definition save_user_keywords :: "UserKeyword std_map \<Rightarrow> bool \<Rightarrow> string option \<Rightarrow> bool \<times> string option" where
  "save_user_keywords m writable old =
     (if writable then (True, Some (save_text m)) else (False, old))"

text \<open>What a block's lines between the opening marker and its end amount to: the
  parameters of its \<open>PARAMS\<close> lines, in order, and the other lines as the body.\<close>

definition params_of_line :: "string \<Rightarrow> (string \<times> string) list" where
  "params_of_line line =
     (case marker_payload line of
        None \<Rightarrow> []
      | Some paramstr \<Rightarrow> if paramstr \<noteq> [] then parse_param_items (split_csv paramstr) [] else [])"

definition block_entry :: "string list \<Rightarrow> UserKeyword" where
  "block_entry ls =
     \<lparr>snippet = concat (map (\<lambda>l. l @ [newline]) (filter (\<lambda>l. \<not> prefix ''===PARAMS:'' l) ls)),
      params = concat (map params_of_line (filter (prefix ''===PARAMS:'') ls))\<rparr>"

text \<open>
  The stores that the file format can hold without loss. A name is not empty, has no white
  space at either end and no line break. A parameter name also has no comma and no equals
  sign; a default has no white space at either end, no comma and no line break. A body is
  empty or ends with a line break, and none of its lines is the end marker or begins with
  the \<open>PARAMS\<close> marker.
\<close>

definition valid_name :: "string \<Rightarrow> bool" where
  "valid_name k = (k \<noteq> [] \<and> trim k = k \<and> newline \<notin> set k)"

definition valid_param :: "string \<times> string \<Rightarrow> bool" where
  "valid_param p =
     (fst p \<noteq> [] \<and> trim (fst p) = fst p \<and> trim (snd p) = snd p
      \<and> CHR '','' \<notin> set (fst p) \<and> CHR ''='' \<notin> set (fst p) \<and> newline \<notin> set (fst p)
      \<and> CHR '','' \<notin> set (snd p) \<and> newline \<notin> set (snd p))"

definition valid_body :: "string \<Rightarrow> bool" where
  "valid_body b =
     ((b = [] \<or> last b = newline)
      \<and> list_all (\<lambda>l. l \<noteq> ''===END==='' \<and> \<not> prefix ''===PARAMS:'' l) (getlines newline b))"

definition valid_entry :: "string \<times> UserKeyword \<Rightarrow> bool" where
  "valid_entry kv =
     (valid_name (fst kv) \<and> list_all valid_param (params (snd kv)) \<and> valid_body (snippet (snd kv)))"

definition valid_store :: "UserKeyword std_map \<Rightarrow> bool" where
  "valid_store m = (map_ok m \<and> list_all valid_entry m)"

text \<open>One parameter as the writer prints it.\<close>

definition param_item :: "string \<times> string \<Rightarrow> string" where
  "param_item p = fst p @ ''='' @ snd p"

text \<open>The stores of the round-trip statement in the specification's words: macro names and
  parameter names contain no \<open>===\<close>, no comma and no white space at either end.\<close>

definition reserved_free :: "string \<Rightarrow> bool" where
  "reserved_free n = (find_str ''==='' n = None \<and> CHR '','' \<notin> set n \<and> trim n = n)"

definition claimed_entry :: "string \<times> UserKeyword \<Rightarrow> bool" where
  "claimed_entry kv =
     (reserved_free (fst kv) \<and> list_all (\<lambda>p. reserved_free (fst p)) (params (snd kv)))"

definition claimed_store :: "UserKeyword std_map \<Rightarrow> bool" where
  "claimed_store m = (map_ok m \<and> list_all claimed_entry m)"

section \<open>The interactive loop\<close>

text \<open>
  Standard input is the list of the lines still to be read; a read on the empty list is the
  end of input. An exception is the left summand of a result. The handlers of the builtin
  keywords raise nothing but \<open>EOFExit\<close> from their prompts; \<open>OtherException\<close> stands for any
  \<^verbatim>\<open>std::exception\<close> that the loop of \<^verbatim>\<open>main\<close> also catches.
\<close>

datatype exn = EOFExit | OtherException

definition prompt_opt :: "string list \<Rightarrow> exn + (string option \<times> string list)" where
  "prompt_opt inp =
     (case inp of
        [] \<Rightarrow> Inl EOFExit
      | line # rest \<Rightarrow> Inr (if line = [] then None else Some line, rest))"

text \<open>\<^verbatim>\<open>ask(prompt, def)\<close>; the prompt text goes to the terminal only and is left out.\<close>

definition ask :: "string \<Rightarrow> string list \<Rightarrow> exn + (string \<times> string list)" where
  "ask def inp =
     (case prompt_opt inp of
        Inl e \<Rightarrow> Inl e
      | Inr (res, rest) \<Rightarrow> Inr (case res of None \<Rightarrow> def | Some line \<Rightarrow> line, rest))"

fun read_multiline_body :: "string list \<Rightarrow> exn + (string list \<times> string list)" where
  "read_multiline_body [] = Inl EOFExit"
| "read_multiline_body (line # rest) =
     (if line = ''.'' then Inr ([], rest)
      else (case read_multiline_body rest of
              Inl e \<Rightarrow> Inl e
            | Inr (lines, rest') \<Rightarrow> Inr (line # lines, rest')))"

text \<open>
  What the program can see and change: its input, the file of the user keywords (\<open>None\<close>
  when it does not exist) and whether that file can be opened for writing. Of the output,
  \<open>messages\<close> records the lines in which \<^verbatim>\<open>main\<close> reports how a command or an input line
  ended, and the generated program, without their line breaks; banners, prompts, listings
  and the help text are not recorded.
\<close>

record world =
  stdin :: "string list"
  messages :: "string list"
  db_file :: "string option"
  writable :: bool

definition say :: "string \<Rightarrow> world \<Rightarrow> world" where
  "say m w = w\<lparr>messages := messages w @ [m]\<rparr>"

text \<open>How one turn of the loop of \<^verbatim>\<open>main\<close> ends: the loop goes on with a store and a world;
  or \<^verbatim>\<open>main\<close> returns an exit status; or an \<open>EOFExit\<close> that nothing catches leaves \<^verbatim>\<open>main\<close>
  and the process is terminated. The last two carry the messages and the file.\<close>

datatype run_state =
    Running "UserKeyword std_map" world
  | Exited int "string list" "string option"
  | Terminated "string list" "string option"

definition conflict_msg :: string where
  "conflict_msg = ''That name conflicts with a built-in C++17 keyword. Choose another name.''"

definition saved_msg :: "string \<Rightarrow> nat \<Rightarrow> string" where
  "saved_msg name n =
     ''Custom keyword '' @ [CHR 0x27] @ name @ [CHR 0x27] @ '' saved to disk with ''
       @ to_string n @ '' parameter(s).''"

definition save_failed_msg :: string where
  "save_failed_msg = ''Failed to save custom keywords to disk.''"

definition eof_define_msg :: string where
  "eof_define_msg = ''EOF during custom keyword definition. Cancelling and exiting.''"

definition eof_offer_msg :: string where
  "eof_offer_msg = ''EOF received during custom-keyword definition prompt. Cancelling and exiting.''"

definition eof_followup_msg :: string where
  "eof_followup_msg = ''EOF received during follow-up prompts. Cancelling and exiting.''"

definition parse_params_line :: "string \<Rightarrow> (string \<times> string) list" where
  "parse_params_line params_line =
     (if params_line \<noteq> [] then parse_param_items (split_csv params_line) [] else [])"

text \<open>The end of both definition flows: \<^verbatim>\<open>user_keywords[name] = uk\<close>, then the save and its
  report.\<close>

definition store_and_save ::
  "string \<Rightarrow> UserKeyword \<Rightarrow> UserKeyword std_map \<Rightarrow> world \<Rightarrow> UserKeyword std_map \<times> world" where
  "store_and_save name uk uks w =
     (let uks' = map_assign name uk uks;
          saved = save_user_keywords uks' (writable w) (db_file w)
      in (uks', say (if fst saved then saved_msg name (length (params uk)) else save_failed_msg)
                    (w\<lparr>db_file := snd saved\<rparr>)))"

text \<open>The part that \<^verbatim>\<open>:add\<close> and the offer for an unknown token share: the parameter
  line, the body up to a single dot, the store and the save.\<close>

definition define_flow ::
  "string \<Rightarrow> UserKeyword std_map \<Rightarrow> world \<Rightarrow> exn + (UserKeyword std_map \<times> world)" where
  "define_flow name uks w =
     (case ask [] (stdin w) of
        Inl e \<Rightarrow> Inl e
      | Inr (params_line, in1) \<Rightarrow>
          (case read_multiline_body in1 of
             Inl e \<Rightarrow> Inl e
           | Inr (snippet_lines, in2) \<Rightarrow>
               Inr (store_and_save name
                      \<lparr>snippet = concat (map (\<lambda>l. l @ [newline]) snippet_lines),
                       params = parse_params_line params_line\<rparr>
                      uks (w\<lparr>stdin := in2\<rparr>))))"

definition eof_define :: "world \<Rightarrow> run_state" where
  "eof_define w = Exited 0 (messages w @ [eof_define_msg]) (db_file w)"

definition define_or_exit :: "string \<Rightarrow> UserKeyword std_map \<Rightarrow> world \<Rightarrow> run_state" where
  "define_or_exit name uks w =
     (case define_flow name uks w of
        Inl e \<Rightarrow> eof_define w
      | Inr (uks', w') \<Rightarrow> Running uks' w')"

definition cmd_add :: "UserKeyword std_map \<Rightarrow> world \<Rightarrow> run_state" where
  "cmd_add uks w =
     (case ask ''mykw'' (stdin w) of
        Inl e \<Rightarrow> eof_define w
      | Inr (answer, in1) \<Rightarrow>
          (let name = normalize_token answer in
           if name = [] then Running uks (say ''Empty keyword name; aborting.'' (w\<lparr>stdin := in1\<rparr>))
           else if is_cpp17_keyword name then Running uks (say conflict_msg (w\<lparr>stdin := in1\<rparr>))
           else if map_has name uks then
             (case ask ''n'' in1 of
                Inl e \<Rightarrow> eof_define w
              | Inr (over, in2) \<Rightarrow>
                  if \<not> (over = ''y'' \<or> over = ''Y'')
                  then Running uks (say ''Aborted.'' (w\<lparr>stdin := in2\<rparr>))
                  else define_or_exit name uks (w\<lparr>stdin := in2\<rparr>))
           else define_or_exit name uks (w\<lparr>stdin := in1\<rparr>)))"

text \<open>\<^verbatim>\<open>:edit\<close>. None of its prompts is inside a \<^verbatim>\<open>try\<close>, so the end of input terminates
  the process. First the loop over the stored parameters, then the loop that adds
  parameters: a name, and while the name is not empty its default and the next name.\<close>

fun edit_defaults ::
  "(string \<times> string) list \<Rightarrow> string list \<Rightarrow> exn + ((string \<times> string) list \<times> string list)" where
  "edit_defaults [] inp = Inr ([], inp)"
| "edit_defaults ((pname, pdef) # ps) inp =
     (case ask [] inp of
        Inl e \<Rightarrow> Inl e
      | Inr (newval, rest) \<Rightarrow>
          (case edit_defaults ps rest of
             Inl e \<Rightarrow> Inl e
           | Inr (ps', rest') \<Rightarrow> Inr ((pname, if newval \<noteq> [] then newval else pdef) # ps', rest')))"

fun add_params ::
  "(string \<times> string) list \<Rightarrow> string list \<Rightarrow> exn + ((string \<times> string) list \<times> string list)" where
  "add_params ps [] = Inl EOFExit"
| "add_params ps (addp # rest) =
     (if addp = [] then Inr (ps, rest)
      else (case rest of
              [] \<Rightarrow> Inl EOFExit
            | defv # rest' \<Rightarrow> add_params (ps @ [(addp, defv)]) rest'))"

definition edit_snippet :: "string \<Rightarrow> string list \<Rightarrow> exn + (string \<times> string list)" where
  "edit_snippet old inp =
     (case ask ''n'' inp of
        Inl e \<Rightarrow> Inl e
      | Inr (replace_snip, rest) \<Rightarrow>
          if replace_snip = ''y'' \<or> replace_snip = ''Y''
          then (case read_multiline_body rest of
                  Inl e \<Rightarrow> Inl e
                | Inr (new_lines, rest') \<Rightarrow> Inr (concat (map (\<lambda>l. l @ [newline]) new_lines), rest'))
          else Inr (old, rest))"

definition updated_msg :: "string \<Rightarrow> nat \<Rightarrow> string" where
  "updated_msg key n =
     ''Custom keyword '' @ [CHR 0x27] @ key @ [CHR 0x27] @ '' updated and saved (''
       @ to_string n @ '' parameter(s)).''"

definition cmd_edit :: "UserKeyword std_map \<Rightarrow> world \<Rightarrow> string \<Rightarrow> run_state" where
  "cmd_edit uks w arg =
     (case (if arg = [] then ask [] (stdin w) else Inr (arg, stdin w)) of
        Inl e \<Rightarrow> Terminated (messages w) (db_file w)
      | Inr (key, in1) \<Rightarrow>
          if key = [] then Running uks (say ''No keyword supplied; aborting.'' (w\<lparr>stdin := in1\<rparr>))
          else (case map_find key uks of
                  None \<Rightarrow> Running uks (say (''No such custom keyword '' @ [CHR 0x27] @ key @ [CHR 0x27] @ ''.'')
                                        (w\<lparr>stdin := in1\<rparr>))
                | Some uk \<Rightarrow>
                    (case edit_defaults (params uk) in1 of
                       Inl e \<Rightarrow> Terminated (messages w) (db_file w)
                     | Inr (ps1, in2) \<Rightarrow>
                         (case add_params ps1 in2 of
                            Inl e \<Rightarrow> Terminated (messages w) (db_file w)
                          | Inr (ps2, in3) \<Rightarrow>
                              (case edit_snippet (snippet uk) in3 of
                                 Inl e \<Rightarrow> Terminated (messages w) (db_file w)
                               | Inr (snip, in4) \<Rightarrow>
                                   (let uks' = map_assign key \<lparr>snippet = snip, params = ps2\<rparr> uks;
                                        saved = save_user_keywords uks' (writable w) (db_file w)
                                    in Running uks'
                                         (say (if fst saved then updated_msg key (length ps2)
                                               else save_failed_msg)
                                            (w\<lparr>stdin := in4, db_file := snd saved\<rparr>))))))))"

definition cmd_remove :: "UserKeyword std_map \<Rightarrow> world \<Rightarrow> string \<Rightarrow> run_state" where
  "cmd_remove uks w arg =
     (if arg = [] then Running uks (say ''Usage: :remove <keyword>'' w)
      else (let key = normalize_token arg in
            if map_has key uks then
              (let uks' = map_erase key uks;
                   saved = save_user_keywords uks' (writable w) (db_file w)
               in Running uks'
                    (say (if fst saved
                          then ''Removed '' @ [CHR 0x27] @ key @ [CHR 0x27] @ '' and saved changes.''
                          else ''Removed '' @ [CHR 0x27] @ key @ [CHR 0x27] @ '' but failed to save to disk.'')
                       (w\<lparr>db_file := snd saved\<rparr>)))
            else Running uks (say (''No such custom keyword: '' @ [CHR 0x27] @ key @ [CHR 0x27] @ ''.'') w)))"

text \<open>\<^verbatim>\<open>:search\<close> lists matches only; it prompts for the term when none is given, outside
  any \<^verbatim>\<open>try\<close>.\<close>

definition cmd_search :: "UserKeyword std_map \<Rightarrow> world \<Rightarrow> string \<Rightarrow> run_state" where
  "cmd_search uks w arg =
     (if arg = [] then
        (case ask [] (stdin w) of
           Inl e \<Rightarrow> Terminated (messages w) (db_file w)
         | Inr (t, rest) \<Rightarrow> Running uks (w\<lparr>stdin := rest\<rparr>))
      else Running uks w)"

definition run_command :: "UserKeyword std_map \<Rightarrow> world \<Rightarrow> string \<Rightarrow> run_state" where
  "run_command uks w trimmed =
     (let toks = tokenize trimmed;
          cmd = (case toks of [] \<Rightarrow> [] | c # _ \<Rightarrow> c);
          arg = (case toks of _ # a # _ \<Rightarrow> a | _ \<Rightarrow> [])
      in if cmd = '':add'' \<or> cmd = '':define'' then cmd_add uks w
         else if cmd = '':list'' then Running uks w
         else if cmd = '':search'' then cmd_search uks w arg
         else if cmd = '':edit'' then cmd_edit uks w arg
         else if cmd = '':remove'' then cmd_remove uks w arg
         else if cmd = '':help'' then Running uks w
         else Running uks (say (''Unknown command '' @ [CHR 0x27] @ cmd @ [CHR 0x27]
                                 @ ''. Type :help for commands.'') w))"

text \<open>
  The first pass over the tokens of an input line: for a token that is neither a builtin
  keyword nor a stored one and begins like an identifier, the user may define it on the
  spot. The left summand is an \<open>EOFExit\<close>, with the world in which it was raised.
  \<open>offer_definition\<close> is the body of the loop for one token.
\<close>

definition offer_definition ::
  "string \<Rightarrow> UserKeyword std_map \<Rightarrow> world \<Rightarrow> world + (UserKeyword std_map \<times> world)" where
  "offer_definition raw uks w =
     (let norm = normalize_token raw in
      if norm = [] then Inr (uks, w)
      else if \<not> is_cpp17_keyword norm \<and> \<not> map_has norm uks then
        (if isalpha (hd norm) \<or> hd norm = CHR ''_'' then
           (case ask ''s'' (stdin w) of
              Inl e \<Rightarrow> Inl w
            | Inr (choice, in1) \<Rightarrow>
                if choice = ''y'' \<or> choice = ''Y'' then
                  (if is_cpp17_keyword norm
                   then Inr (uks, say ''That name conflicts with a built-in C++17 keyword. Skipping.''
                                    (w\<lparr>stdin := in1\<rparr>))
                   else (case define_flow norm uks (w\<lparr>stdin := in1\<rparr>) of
                           Inl e \<Rightarrow> Inl w
                         | Inr r \<Rightarrow> Inr r))
                else Inr (uks, say (''Skipping token '' @ [CHR 0x27] @ norm @ [CHR 0x27] @ ''.'')
                                 (w\<lparr>stdin := in1\<rparr>)))
         else Inr (uks, w))
      else Inr (uks, w))"

fun offer_definitions ::
  "string list \<Rightarrow> UserKeyword std_map \<Rightarrow> world \<Rightarrow> world + (UserKeyword std_map \<times> world)" where
  "offer_definitions [] uks w = Inr (uks, w)"
| "offer_definitions (raw # ts) uks w =
     (case offer_definition raw uks w of
        Inl w' \<Rightarrow> Inl w'
      | Inr (uks', w') \<Rightarrow> offer_definitions ts uks' w')"

section \<open>Dispatch of the occurrences\<close>

text \<open>
  The handlers of the builtin keywords are a parameter: a handler gets the keyword, the
  context, the occurrence tag and the input, and either raises or returns its fragment, the
  context as it leaves it, and the input that is left.
\<close>

type_synonym handler =
  "string \<Rightarrow> Context \<Rightarrow> string \<Rightarrow> string list \<Rightarrow> exn + (Parts \<times> Context \<times> string list)"

definition occurrence_tag :: "nat \<Rightarrow> nat \<Rightarrow> string" where
  "occurrence_tag occurrence_index token_pos =
     ''occurrence '' @ to_string occurrence_index @ '' (token '' @ to_string token_pos @ '')''"

text \<open>One prompt per declared parameter, in order, with the default offered.\<close>

fun ask_values ::
  "(string \<times> string) list \<Rightarrow> string std_map \<Rightarrow> string list \<Rightarrow> exn + (string std_map \<times> string list)" where
  "ask_values [] values inp = Inr (values, inp)"
| "ask_values ((pname, pdef) # ps) values inp =
     (case ask pdef inp of
        Inl e \<Rightarrow> Inl e
      | Inr (val, rest) \<Rightarrow> ask_values ps (map_assign pname val values) rest)"

definition generate_parts_for_keyword_occurrence ::
  "handler \<Rightarrow> string \<Rightarrow> Context \<Rightarrow> nat \<Rightarrow> nat \<Rightarrow> UserKeyword std_map \<Rightarrow> string list
     \<Rightarrow> exn + (Parts \<times> Context \<times> string list)" where
  "generate_parts_for_keyword_occurrence builtin kw ctx occurrence_index token_pos user_keywords inp =
     (let tag = occurrence_tag occurrence_index token_pos in
      case map_find kw user_keywords of
        Some uk \<Rightarrow>
          (case ask_values (params uk) [] inp of
             Inl e \<Rightarrow> Inl e
           | Inr (values, rest) \<Rightarrow> Inr (parts_from_user_snippet_with_params uk values tag, ctx, rest))
      | None \<Rightarrow> builtin kw ctx tag inp)"

text \<open>The loop over the occurrences; \<open>i\<close> counts those already handled, \<open>aggregated\<close> is the
  aggregate so far.\<close>

fun dispatch_occurrences ::
  "handler \<Rightarrow> UserKeyword std_map \<Rightarrow> (string \<times> nat) list \<Rightarrow> nat \<Rightarrow> Context \<Rightarrow> Parts \<Rightarrow> string list
     \<Rightarrow> exn + (Parts \<times> Context \<times> string list)" where
  "dispatch_occurrences builtin uks [] i ctx aggregated inp = Inr (aggregated, ctx, inp)"
| "dispatch_occurrences builtin uks ((kw, token_pos) # occs) i ctx aggregated inp =
     (case generate_parts_for_keyword_occurrence builtin kw ctx (i + 1) token_pos uks inp of
        Inl e \<Rightarrow> Inl e
      | Inr (p, ctx', rest) \<Rightarrow>
          dispatch_occurrences builtin uks occs (Suc i) ctx' (append_parts aggregated p) rest)"

definition empty_context :: Context where
  "empty_context = \<lparr>vars = [], types = [], last_var = [], last_type = [], meta = []\<rparr>"

text \<open>From the occurrence list to the end of the turn.\<close>

definition generate_for_line ::
  "handler \<Rightarrow> UserKeyword std_map \<Rightarrow> world \<Rightarrow> (string \<times> nat) list \<Rightarrow> run_state" where
  "generate_for_line builtin uks w occurrences =
     (if occurrences = []
      then Running uks
             (say ''No recognized C++17 or user-defined keyword found in the input. Try again.'' w)
      else (case dispatch_occurrences builtin uks occurrences 0 empty_context empty_parts (stdin w) of
              Inl EOFExit \<Rightarrow> Exited 0 (messages w @ [eof_followup_msg]) (db_file w)
            | Inl OtherException \<Rightarrow> Exited 1 (messages w @ [''Error during prompts'']) (db_file w)
            | Inr (aggregated, ctx, rest) \<Rightarrow>
                Running uks
                  (say (make_program_from_body_lines (p_body aggregated) (p_includes aggregated)
                          (p_top aggregated))
                     (w\<lparr>stdin := rest\<rparr>))))"

definition process_line :: "handler \<Rightarrow> UserKeyword std_map \<Rightarrow> world \<Rightarrow> string \<Rightarrow> run_state" where
  "process_line builtin uks w trimmed =
     (let tokens = tokenize trimmed in
      case offer_definitions tokens uks w of
        Inl w' \<Rightarrow> Exited 0 (messages w' @ [eof_offer_msg]) (db_file w')
      | Inr (uks', w') \<Rightarrow> generate_for_line builtin uks' w' (build_occurrences uks' 0 tokens))"

text \<open>One turn of \<^verbatim>\<open>while (true)\<close> in \<^verbatim>\<open>main\<close>.\<close>

definition main_step :: "handler \<Rightarrow> UserKeyword std_map \<Rightarrow> world \<Rightarrow> run_state" where
  "main_step builtin uks w =
     (case stdin w of
        [] \<Rightarrow> Exited 0 (messages w @ [''EOF received at top-level. Exiting cleanly.'']) (db_file w)
      | line # rest \<Rightarrow>
          (let trimmed = trim line; w1 = w\<lparr>stdin := rest\<rparr> in
           if trimmed = [] then Running uks w1
           else if hd trimmed = CHR '':'' then run_command uks w1 trimmed
           else if trimmed = ''exit'' then Exited 0 (messages w1 @ [''Exit requested. Goodbye.'']) (db_file w1)
           else process_line builtin uks w1 trimmed))"

text \<open>The states that the loop can reach from a state.\<close>

inductive reaches :: "handler \<Rightarrow> UserKeyword std_map \<times> world \<Rightarrow> UserKeyword std_map \<times> world \<Rightarrow> bool"
  for builtin :: handler and start :: "UserKeyword std_map \<times> world" where
    reaches_start: "reaches builtin start start"
  | reaches_step: "reaches builtin start (uks, w) \<Longrightarrow> main_step builtin uks w = Running uks' w'
                   \<Longrightarrow> reaches builtin start (uks', w')"

text \<open>A handler for lines without builtin keywords.\<close>

definition no_builtin :: handler where
  "no_builtin kw ctx tag inp = Inl OtherException"

text \<open>The invariant of the keyword names: no stored name is a builtin keyword.\<close>

definition store_disjoint :: "UserKeyword std_map \<Rightarrow> bool" where
  "store_disjoint uks = list_all (\<lambda>k. \<not> is_cpp17_keyword k) (map_keys uks)"

text \<open>The claim about the end of input in the specification's words: control is back in
  the loop.\<close>

definition returns_to_loop :: "run_state \<Rightarrow> bool" where
  "returns_to_loop r = (case r of Running uks w \<Rightarrow> True | Exited c ms f \<Rightarrow> False | Terminated ms f \<Rightarrow> False)"

text \<open>The lines that the expansion keeps out of the body.\<close>

definition is_include_line :: "string \<Rightarrow> bool" where
  "is_include_line l = (prefix ''#include'' (trim l) \<or> prefix ''# include'' (trim l))"

section \<open>The occurrence resolver\<close>

lemma build_occurrences_char:
  "build_occurrences uks i ts =
     map (\<lambda>j. (normalize_token (ts ! j), i + j + 1)) (filter (\<lambda>j. recognized uks (ts ! j)) [0..<length ts])"
proof (induction ts arbitrary: i)
  case Nil
  show ?case by simp
next
  case (Cons t ts)
  have up: "[0..<length (t # ts)] = 0 # map Suc [0..<length ts]"
    by (simp add: upt_conv_Cons map_Suc_upt del: upt_Suc)
  show ?case
    unfolding up
    by (simp add: Cons.IH recognized_def Let_def filter_map comp_def del: upt_Suc)
qed

lemma occurrences_of_line_char:
  "occurrences_of_line uks line =
     map (\<lambda>j. (normalize_token (tokenize line ! j), j + 1))
         (filter (\<lambda>j. recognized uks (tokenize line ! j)) [0..<length (tokenize line)])"
  by (simp add: occurrences_of_line_def build_occurrences_char)

lemma occurrences_of_line_increasing:
  "sorted_wrt (<) (map snd (occurrences_of_line uks line))"
  by (simp add: occurrences_of_line_char comp_def sorted_wrt_map sorted_wrt_filter del: upt_Suc)

lemma occurrences_of_line_length:
  "length (occurrences_of_line uks line) = length (filter (recognized uks) (tokenize line))"
proof -
  have "filter (recognized uks) (tokenize line) =
        filter (recognized uks) (map (\<lambda>j. tokenize line ! j) [0..<length (tokenize line)])"
    by (simp add: map_nth)
  then show ?thesis
    by (simp add: occurrences_of_line_char filter_map comp_def del: upt_Suc)
qed

lemma tokenize_from_tokens:
  "list_all (\<lambda>c. \<not> isspace c) cur \<Longrightarrow>
   list_all (\<lambda>t. t \<noteq> [] \<and> list_all (\<lambda>c. \<not> isspace c) t) (tokenize_from cur s)"
  by (induction s arbitrary: cur) auto

lemma tokenize_from_concat:
  "concat (tokenize_from cur s) = cur @ filter (\<lambda>c. \<not> isspace c) s"
  by (induction s arbitrary: cur) auto

lemma tokenize_tokens:
  "list_all (\<lambda>t. t \<noteq> [] \<and> list_all (\<lambda>c. \<not> isspace c) t) (tokenize line)"
  unfolding tokenize_def by (rule tokenize_from_tokens) simp

lemma tokenize_concat: "concat (tokenize line) = filter (\<lambda>c. \<not> isspace c) line"
  by (simp add: tokenize_def tokenize_from_concat)

text \<open>
  C2. For every input line and every macro store: the tokens are the non-empty runs of
  bytes that are not white space (none is empty, none holds white space, together they are
  the line without its white space). The occurrence list holds, for exactly the token
  indices \<open>j\<close> (in ascending order) whose token is recognized, the pair of the normalized
  token and the 1-based position \<open>j + 1\<close>. Hence the positions are strictly increasing,
  there are as many pairs as recognized tokens, and a keyword that occurs twice is listed
  twice.
\<close>

theorem occurrence_resolver:
  "occurrences_of_line uks line =
     map (\<lambda>j. (normalize_token (tokenize line ! j), j + 1))
         (filter (\<lambda>j. recognized uks (tokenize line ! j)) [0..<length (tokenize line)])
   \<and> sorted_wrt (<) (map snd (occurrences_of_line uks line))
   \<and> length (occurrences_of_line uks line) = length (filter (recognized uks) (tokenize line))
   \<and> list_all (\<lambda>t. t \<noteq> [] \<and> list_all (\<lambda>c. \<not> isspace c) t) (tokenize line)
   \<and> concat (tokenize line) = filter (\<lambda>c. \<not> isspace c) line"
  using occurrences_of_line_char occurrences_of_line_increasing occurrences_of_line_length
    tokenize_tokens tokenize_concat
  by blast

theorem occurrence_resolver_witness:
  "occurrences_of_line [(''mykw'', \<lparr>snippet = ''x'', params = []\<rparr>)] ''int MyKw, int? zz ;;''
     = [(''int'', 1), (''mykw'', 2), (''int'', 3)]
   \<and> sorted_wrt (<) (map snd
        (occurrences_of_line [(''mykw'', \<lparr>snippet = ''x'', params = []\<rparr>)] ''int MyKw, int? zz ;;''))
   \<and> length (filter (recognized [(''mykw'', \<lparr>snippet = ''x'', params = []\<rparr>)])
        (tokenize ''int MyKw, int? zz ;;'')) = 3"
proof -
  let ?u = "[(''mykw'', \<lparr>snippet = ''x'', params = []\<rparr>)]"
  let ?l = "''int MyKw, int? zz ;;''"
  have e: "occurrences_of_line ?u ?l = [(''int'', 1), (''mykw'', 2), (''int'', 3)]"
    by code_simp
  have s: "sorted_wrt (<) (map snd (occurrences_of_line ?u ?l))"
    using occurrence_resolver [of ?u ?l] by blast
  have "length (occurrences_of_line ?u ?l) = length (filter (recognized ?u) (tokenize ?l))"
    using occurrence_resolver [of ?u ?l] by blast
  then have n: "length (filter (recognized ?u) (tokenize ?l)) = 3"
    unfolding e by simp
  from e s n show ?thesis by blast
qed

section \<open>Collision-safe declaration\<close>

lemma declare_loop_free: "\<not> map_has (declare_loop vs b name s) vs"
  by (induction vs b name s rule: declare_loop.induct) (subst declare_loop.simps, simp)

lemma declare_loop_suffix:
  "declare_loop vs b name s = name \<and> \<not> map_has name vs \<or>
   (map_has name vs \<and> (\<exists>k\<ge>s. declare_loop vs b name s = b @ to_string k \<and>
       (\<forall>j. s \<le> j \<and> j < k \<longrightarrow> map_has (b @ to_string j) vs)))"
proof (induction vs b name s rule: declare_loop.induct)
  case (1 vs b name s)
  show ?case
  proof (cases "map_has name vs")
    case False
    then show ?thesis by (subst declare_loop.simps) simp
  next
    case True
    note IH = 1 [OF True]
    have eq: "declare_loop vs b name s = declare_loop vs b (b @ to_string s) (Suc s)"
      using True by (subst declare_loop.simps) simp
    from IH show ?thesis
    proof
      assume "declare_loop vs b (b @ to_string s) (Suc s) = b @ to_string s
              \<and> \<not> map_has (b @ to_string s) vs"
      then have "declare_loop vs b name s = b @ to_string s" using eq by simp
      then show ?thesis using True by auto
    next
      assume "map_has (b @ to_string s) vs \<and>
         (\<exists>k\<ge>Suc s. declare_loop vs b (b @ to_string s) (Suc s) = b @ to_string k \<and>
            (\<forall>j. Suc s \<le> j \<and> j < k \<longrightarrow> map_has (b @ to_string j) vs))"
      then obtain k where h: "map_has (b @ to_string s) vs" "Suc s \<le> k"
         "declare_loop vs b (b @ to_string s) (Suc s) = b @ to_string k"
         "\<forall>j. Suc s \<le> j \<and> j < k \<longrightarrow> map_has (b @ to_string j) vs" by blast
      have "\<forall>j. s \<le> j \<and> j < k \<longrightarrow> map_has (b @ to_string j) vs"
        using h(1,4) by (metis Suc_leI le_neq_implies_less)
      with h eq True show ?thesis by (intro disjI2 conjI exI[of _ k]) auto
    qed
  qed
qed

lemma map_of_map_assign: "map_of (map_assign k v m) = (map_of m)(k \<mapsto> v)"
  by (induction m) (auto simp: fun_eq_iff)

lemma map_find_map_assign:
  "map_find k' (map_assign k v m) = (if k' = k then Some v else map_find k' m)"
  by (simp add: map_find_def map_of_map_assign)

lemma map_has_map_assign: "map_has k' (map_assign k v m) \<longleftrightarrow> k' = k \<or> map_has k' m"
  by (simp add: map_has_def map_find_map_assign)

lemma declare_variable_first:
  "declare_variable ctx ty base init = (s1, c1) \<Longrightarrow>
     s1 = ty @ '' '' @ last_var c1 @ '' = '' @ init @ '';''
   \<and> vars c1 = map_assign (last_var c1) ty (vars ctx)
   \<and> \<not> map_has (last_var c1) (vars ctx)
   \<and> (if map_has base (vars ctx)
      then (\<exists>k\<ge>1. last_var c1 = base @ to_string k \<and>
             (\<forall>j. 1 \<le> j \<and> j < k \<longrightarrow> map_has (base @ to_string j) (vars ctx)))
      else last_var c1 = base)"
  using declare_loop_suffix [of "vars ctx" base base 1] declare_loop_free [of "vars ctx" base base 1]
  by (auto simp: declare_variable_def Let_def)

text \<open>
  C5. Declare a variable of requested name \<open>base\<close> in a context \<open>ctx\<close>, then a second one of
  the same requested name in the resulting context. The first final name \<open>n1\<close> is not a key
  of the map before; when \<open>base\<close> is already a key it is \<open>base\<close> followed by the decimal
  rendering of the least \<open>k \<ge> 1\<close> whose name is free (all of \<open>1, \<dots>, k - 1\<close> are taken),
  otherwise it is \<open>base\<close> itself. The second final name \<open>n2\<close> differs from the first and is
  always suffixed, again by the least free \<open>k \<ge> 1\<close>. After each declaration the final name is
  recorded with its type and is the last variable, and the returned statement uses it.
\<close>

theorem declare_variable_fresh_suffix:
  "let (s1, c1) = declare_variable ctx ty base init; n1 = last_var c1;
       (s2, c2) = declare_variable c1 ty2 base init2; n2 = last_var c2
   in s1 = ty @ '' '' @ n1 @ '' = '' @ init @ '';''
    \<and> \<not> map_has n1 (vars ctx)
    \<and> (if map_has base (vars ctx)
       then (\<exists>k\<ge>1. n1 = base @ to_string k \<and>
              (\<forall>j. 1 \<le> j \<and> j < k \<longrightarrow> map_has (base @ to_string j) (vars ctx)))
       else n1 = base)
    \<and> vars c1 = map_assign n1 ty (vars ctx) \<and> map_find n1 (vars c1) = Some ty
    \<and> n2 \<noteq> n1
    \<and> (\<exists>k\<ge>1. n2 = base @ to_string k \<and>
              (\<forall>j. 1 \<le> j \<and> j < k \<longrightarrow> map_has (base @ to_string j) (vars c1)))
    \<and> s2 = ty2 @ '' '' @ n2 @ '' = '' @ init2 @ '';''
    \<and> vars c2 = map_assign n2 ty2 (vars c1)
    \<and> map_find n2 (vars c2) = Some ty2 \<and> map_find n1 (vars c2) = Some ty"
proof -
  obtain s1 c1 where r1: "declare_variable ctx ty base init = (s1, c1)"
    by (cases "declare_variable ctx ty base init")
  obtain s2 c2 where r2: "declare_variable c1 ty2 base init2 = (s2, c2)"
    by (cases "declare_variable c1 ty2 base init2")
  note f1 = declare_variable_first [OF r1]
  note f2 = declare_variable_first [OF r2]
  have in1: "map_has (last_var c1) (vars c1)"
    using f1 by (simp add: map_has_map_assign)
  have b1: "map_has base (vars c1)"
    using f1 by (cases "map_has base (vars ctx)") (auto simp: map_has_map_assign)
  have ne: "last_var c2 \<noteq> last_var c1"
    using f2 in1 by auto
  have m1: "map_find (last_var c1) (vars c1) = Some ty"
    using f1 by (simp add: map_find_map_assign)
  have m2: "map_find (last_var c2) (vars c2) = Some ty2"
    using f2 by (simp add: map_find_map_assign)
  have m3: "map_find (last_var c1) (vars c2) = Some ty"
    using f2 ne m1 by (simp add: map_find_map_assign)
  from f2 b1 have sfx2: "\<exists>k\<ge>1. last_var c2 = base @ to_string k \<and>
              (\<forall>j. 1 \<le> j \<and> j < k \<longrightarrow> map_has (base @ to_string j) (vars c1))"
    by simp
  show ?thesis
    unfolding r1 Let_def prod.case r2
    using f1 f2 ne m1 m2 m3 sfx2 by blast
qed

theorem declare_variable_fresh_suffix_witness:
  "map_has ''x'' [(''x'', ''int''), (''x1'', ''int'')]
   \<and> (1::nat) \<le> 1 \<and> (1::nat) < 2 \<and> map_has (''x'' @ to_string 1) [(''x'', ''int''), (''x1'', ''int'')]
   \<and> declare_variable
        \<lparr>vars = [(''x'', ''int''), (''x1'', ''int'')], types = [], last_var = '''',
         last_type = '''', meta = []\<rparr> ''int'' ''x'' ''0''
      = (''int x2 = 0;'',
         \<lparr>vars = [(''x'', ''int''), (''x1'', ''int''), (''x2'', ''int'')], types = [],
          last_var = ''x2'', last_type = '''', meta = []\<rparr>)
   \<and> declare_variable
        \<lparr>vars = [(''x'', ''int''), (''x1'', ''int''), (''x2'', ''int'')], types = [],
         last_var = ''x2'', last_type = '''', meta = []\<rparr> ''long'' ''x'' ''1''
      = (''long x3 = 1;'',
         \<lparr>vars = [(''x'', ''int''), (''x1'', ''int''), (''x2'', ''int''), (''x3'', ''long'')],
          types = [], last_var = ''x3'', last_type = '''', meta = []\<rparr>)
   \<and> ''x3'' \<noteq> ''x2''"
proof -
  let ?c0 = "\<lparr>vars = [(''x'', ''int''), (''x1'', ''int'')], types = [], last_var = '''',
         last_type = '''', meta = []\<rparr>"
  let ?c1 = "\<lparr>vars = [(''x'', ''int''), (''x1'', ''int''), (''x2'', ''int'')], types = [],
          last_var = ''x2'', last_type = '''', meta = []\<rparr>"
  let ?c2 = "\<lparr>vars = [(''x'', ''int''), (''x1'', ''int''), (''x2'', ''int''), (''x3'', ''long'')],
          types = [], last_var = ''x3'', last_type = '''', meta = []\<rparr>"
  have e1: "declare_variable ?c0 ''int'' ''x'' ''0'' = (''int x2 = 0;'', ?c1)"
    by code_simp
  have e2: "declare_variable ?c1 ''long'' ''x'' ''1'' = (''long x3 = 1;'', ?c2)"
    by code_simp
  have h1: "map_has ''x'' [(''x'', ''int''), (''x1'', ''int'')]"
    by code_simp
  have h2: "map_has (''x'' @ to_string 1) [(''x'', ''int''), (''x1'', ''int'')]"
    by code_simp
  have "last_var ?c2 \<noteq> last_var ?c1"
    using declare_variable_fresh_suffix [of ?c0 "''int''" "''x''" "''0''" "''long''" "''1''"]
    unfolding e1 e2 Let_def prod.case by blast
  then have ne: "''x3'' \<noteq> ''x2''" by simp
  from h1 h2 e1 e2 ne show ?thesis by simp
qed

section \<open>Placeholder expansion\<close>

lemma subst_all_absent:
  "find_str tok s = None \<Longrightarrow> subst_all tok repl s = s"
proof (induction s)
  case Nil
  show ?case by (subst subst_all.simps) simp
next
  case (Cons c cs)
  from Cons.prems have np: "\<not> prefix tok (c # cs)" and r: "find_str tok cs = None"
    by (auto split: if_splits)
  show ?case
    using np Cons.IH [OF r] by (subst subst_all.simps) simp
qed

lemma subst_all_first:
  "find_str tok s = Some i \<Longrightarrow> tok \<noteq> [] \<Longrightarrow>
   subst_all tok repl s = take i s @ repl @ subst_all tok repl (drop (i + length tok) s)"
proof (induction s arbitrary: i)
  case Nil
  then show ?case by simp
next
  case (Cons c cs)
  show ?case
  proof (cases "prefix tok (c # cs)")
    case True
    with Cons.prems have "i = 0" by simp
    with True Cons.prems(2) show ?thesis by (subst subst_all.simps) simp
  next
    case False
    with Cons.prems obtain j where j: "find_str tok cs = Some j" "i = Suc j" by auto
    from Cons.IH [OF j(1) Cons.prems(2)] False Cons.prems(2) j(2)
    show ?thesis by (subst subst_all.simps) simp
  qed
qed

lemma replace_all_loop_subst:
  "tok \<noteq> [] \<Longrightarrow> pos \<le> length s \<Longrightarrow>
   replace_all_loop s tok repl pos = take pos s @ subst_all tok repl (drop pos s)"
proof (induction s tok repl pos rule: replace_all_loop.induct)
  case (1 s token repl pos)
  show ?case
  proof (cases "find_from s token pos")
    case None
    with 1(3) have "find_str token (drop pos s) = None"
      by (simp add: find_from_def split: if_splits)
    then have "subst_all token repl (drop pos s) = drop pos s" by (rule subst_all_absent)
    with None 1(2) show ?thesis by (subst replace_all_loop.simps) simp
  next
    case (Some p)
    with 1(3) obtain i where i: "find_str token (drop pos s) = Some i" "p = pos + i"
      by (auto simp: find_from_def split: if_splits)
    from find_str_bound [OF i(1)] have b: "p + length token \<le> length s"
      using i(2) 1(3) by simp
    let ?s' = "take p s @ repl @ drop (p + length token) s"
    have len: "p + length repl \<le> length ?s'" using b by simp
    have IH: "replace_all_loop ?s' token repl (p + length repl)
          = take (p + length repl) ?s' @ subst_all token repl (drop (p + length repl) ?s')"
      using 1(1) [OF 1(2) Some 1(2) len] .
    have t: "take (p + length repl) ?s' = take p s @ repl" using b by simp
    have d: "drop (p + length repl) ?s' = drop (p + length token) s" using b by simp
    have "subst_all token repl (drop pos s)
          = take i (drop pos s) @ repl @ subst_all token repl (drop (i + length token) (drop pos s))"
      using subst_all_first [OF i(1) 1(2)] .
    moreover have "take pos s @ take i (drop pos s) = take p s"
      by (simp add: i(2) take_add)
    moreover have "drop (i + length token) (drop pos s) = drop (p + length token) s"
      by (simp add: i(2) add.commute add.left_commute)
    ultimately have rhs: "take pos s @ subst_all token repl (drop pos s)
          = take p s @ repl @ subst_all token repl (drop (p + length token) s)"
      by (metis append.assoc)
    have "replace_all_loop s token repl pos = replace_all_loop ?s' token repl (p + length repl)"
      using Some 1(2) by (subst replace_all_loop.simps) simp
    with IH t d rhs show ?thesis by simp
  qed
qed

lemma replace_all_subst: "replace_all s tok repl = subst_all tok repl s"
proof (cases "tok = []")
  case True
  then show ?thesis by (simp add: replace_all_def) (subst subst_all.simps, simp)
next
  case False
  then show ?thesis using replace_all_loop_subst [of tok 0 s repl] by (simp add: replace_all_def)
qed

lemma substitute_params_foldl:
  "substitute_params ps values s =
     foldl (\<lambda>t (pname, pdef). subst_all (''{'' @ pname @ ''}'')
              (case map_find pname values of Some v \<Rightarrow> v | None \<Rightarrow> pdef) t) s ps"
  by (induction ps arbitrary: s) (auto simp: replace_all_subst Let_def)

text \<open>
  C3. For every parameter list, every map of supplied values and every body, the expansion
  loop of the source (search from a moving index, rewrite in place) computes this: for each
  declared parameter in declared order, every literal occurrence of \<open>{name}\<close> is replaced,
  left to right, by the supplied value when the map has one for that name and by the stored
  default otherwise. In particular the macro with parameters \<open>a=1, b=2\<close> and body
  \<open>x={a} y={b}\<close> expands to \<open>x=1 y=2\<close> without supplied values and to \<open>x=9 y=2\<close> when
  \<open>a=9\<close> is supplied, and that text is the one body line behind the header comment.
\<close>

theorem placeholder_expansion:
  "substitute_params ps values s =
     foldl (\<lambda>t (pname, pdef). subst_all (''{'' @ pname @ ''}'')
              (case map_find pname values of Some v \<Rightarrow> v | None \<Rightarrow> pdef) t) s ps
   \<and> substitute_params [(''a'', ''1''), (''b'', ''2'')] [] ''x={a} y={b}'' = ''x=1 y=2''
   \<and> substitute_params [(''a'', ''1''), (''b'', ''2'')] [(''a'', ''9'')] ''x={a} y={b}'' = ''x=9 y=2''
   \<and> p_body (parts_from_user_snippet_with_params
         \<lparr>snippet = ''x={a} y={b}'', params = [(''a'', ''1''), (''b'', ''2'')]\<rparr> [] tag)
       = [snippet_header tag, ''x=1 y=2'']
   \<and> p_body (parts_from_user_snippet_with_params
         \<lparr>snippet = ''x={a} y={b}'', params = [(''a'', ''1''), (''b'', ''2'')]\<rparr> [(''a'', ''9'')] tag)
       = [snippet_header tag, ''x=9 y=2'']"
proof -
  have e1: "substitute_params [(''a'', ''1''), (''b'', ''2'')] [] ''x={a} y={b}'' = ''x=1 y=2''"
    by code_simp
  have e2: "substitute_params [(''a'', ''1''), (''b'', ''2'')] [(''a'', ''9'')] ''x={a} y={b}'' = ''x=9 y=2''"
    by code_simp
  have m1: "find_str ''int main('' ''x=1 y=2'' = None" by code_simp
  have m2: "find_str ''int main('' ''x=9 y=2'' = None" by code_simp
  have s1: "scan_snippet_lines (getlines newline ''x=1 y=2'') empty_parts
            = \<lparr>p_includes = [], p_top = [], p_body = [''x=1 y=2'']\<rparr>" by code_simp
  have s2: "scan_snippet_lines (getlines newline ''x=9 y=2'') empty_parts
            = \<lparr>p_includes = [], p_top = [], p_body = [''x=9 y=2'']\<rparr>" by code_simp
  have b1: "p_body (parts_from_user_snippet_with_params
         \<lparr>snippet = ''x={a} y={b}'', params = [(''a'', ''1''), (''b'', ''2'')]\<rparr> [] tag)
       = [snippet_header tag, ''x=1 y=2'']"
    unfolding parts_from_user_snippet_with_params_def by (simp only: UserKeyword.simps e1 m1 s1 Let_def) simp
  have b2: "p_body (parts_from_user_snippet_with_params
         \<lparr>snippet = ''x={a} y={b}'', params = [(''a'', ''1''), (''b'', ''2'')]\<rparr> [(''a'', ''9'')] tag)
       = [snippet_header tag, ''x=9 y=2'']"
    unfolding parts_from_user_snippet_with_params_def by (simp only: UserKeyword.simps e2 m2 s2 Let_def) simp
  from substitute_params_foldl [of ps "values" s] e1 e2 b1 b2 show ?thesis by blast
qed

theorem placeholder_expansion_witness:
  "substitute_params [(''n'', ''5''), (''m'', ''0'')] [(''n'', ''7'')] ''{n}+{m}+{n}''
     = subst_all ''{m}'' ''0'' (subst_all ''{n}'' ''7'' ''{n}+{m}+{n}'')
   \<and> subst_all ''{m}'' ''0'' (subst_all ''{n}'' ''7'' ''{n}+{m}+{n}'') = ''7+0+7''"
proof -
  have a: "map_find ''n'' [(''n'', ''7'')] = Some ''7''" by code_simp
  have b: "map_find ''m'' [(''n'', ''7'')] = None" by code_simp
  have "substitute_params [(''n'', ''5''), (''m'', ''0'')] [(''n'', ''7'')] ''{n}+{m}+{n}''
     = subst_all ''{m}'' ''0'' (subst_all ''{n}'' ''7'' ''{n}+{m}+{n}'')"
    using placeholder_expansion [of "[(''n'', ''5''), (''m'', ''0'')]" "[(''n'', ''7'')]" "''{n}+{m}+{n}''"]
    by (simp add: a b)
  moreover have "subst_all ''{m}'' ''0'' (subst_all ''{n}'' ''7'' ''{n}+{m}+{n}'') = ''7+0+7''"
    by code_simp
  ultimately show ?thesis by blast
qed

section \<open>The entry-point guard\<close>

text \<open>
  C4. Whenever the body, after parameter substitution, contains \<open>int main(\<close>, the expansion
  returns the error fragment: no includes, no top-level declarations, and a body of exactly
  two lines, the comment \<open>// (tag) ERROR: user snippet contains 'int main('. This is
  disallowed for custom keywords.\<close> and the comment \<open>// Please redefine this custom keyword
  without a main() function.\<close> They depend on the occurrence tag only and never on the
  snippet, and each of them starts a comment. Appending the fragment to an aggregate adds
  these two lines to its body and nothing to its includes or top-level declarations, and the
  program assembled from the fragment alone has these two comments, indented, as the whole
  body of its single entry point before \<open>return 0;\<close>.
\<close>

theorem entry_point_rejected:
  assumes "find_str ''int main('' (substitute_params (params uk) values (snippet uk)) \<noteq> None"
  shows "parts_from_user_snippet_with_params uk values tag
           = \<lparr>p_includes = [], p_top = [],
              p_body = [''// ('' @ tag @ '') ERROR: user snippet contains '' @ [CHR 0x27]
                          @ ''int main('' @ [CHR 0x27] @ ''. This is disallowed for custom keywords.'',
                        ''// Please redefine this custom keyword without a main() function.'']\<rparr>
         \<and> length (p_body (parts_from_user_snippet_with_params uk values tag)) = 2
         \<and> list_all (prefix ''//'') (p_body (parts_from_user_snippet_with_params uk values tag))
         \<and> append_parts acc (parts_from_user_snippet_with_params uk values tag)
           = acc\<lparr>p_body := p_body acc
                  @ [''// ('' @ tag @ '') ERROR: user snippet contains '' @ [CHR 0x27]
                       @ ''int main('' @ [CHR 0x27] @ ''. This is disallowed for custom keywords.'',
                     ''// Please redefine this custom keyword without a main() function.'']\<rparr>
         \<and> make_program_from_body_lines
               (p_body (append_parts empty_parts (parts_from_user_snippet_with_params uk values tag)))
               (p_includes (append_parts empty_parts (parts_from_user_snippet_with_params uk values tag)))
               (p_top (append_parts empty_parts (parts_from_user_snippet_with_params uk values tag)))
           = ''#include <iostream>'' @ [newline]
             @ [newline]
             @ [newline] @ ''using namespace std;'' @ [newline, newline]
             @ ''int main(int argc, char *argv[]) {'' @ [newline]
             @ ''    // ('' @ tag @ '') ERROR: user snippet contains '' @ [CHR 0x27]
                 @ ''int main('' @ [CHR 0x27] @ ''. This is disallowed for custom keywords.'' @ [newline]
             @ ''    // Please redefine this custom keyword without a main() function.'' @ [newline]
             @ ''    return 0;'' @ [newline]
             @ ''}'' @ [newline]"
proof -
  let ?l1 = "''// ('' @ tag @ '') ERROR: user snippet contains '' @ [CHR 0x27]
               @ ''int main('' @ [CHR 0x27] @ ''. This is disallowed for custom keywords.''"
  let ?l2 = "''// Please redefine this custom keyword without a main() function.''"
  have r: "parts_from_user_snippet_with_params uk values tag
           = \<lparr>p_includes = [], p_top = [], p_body = [?l1, ?l2]\<rparr>"
    using assms
    by (simp add: parts_from_user_snippet_with_params_def Let_def empty_parts_def
          main_error_lines_def)
  have n: "length (p_body \<lparr>p_includes = [], p_top = [], p_body = [?l1, ?l2]\<rparr>) = 2"
    by simp
  have c: "list_all (prefix ''//'') (p_body \<lparr>p_includes = [], p_top = [], p_body = [?l1, ?l2]\<rparr>)"
    by simp
  have a: "append_parts acc \<lparr>p_includes = [], p_top = [], p_body = [?l1, ?l2]\<rparr>
           = acc\<lparr>p_body := p_body acc @ [?l1, ?l2]\<rparr>"
    by (simp add: append_parts_def)
  have e: "append_parts empty_parts \<lparr>p_includes = [], p_top = [], p_body = [?l1, ?l2]\<rparr>
           = \<lparr>p_includes = [], p_top = [], p_body = [?l1, ?l2]\<rparr>"
    by (simp add: append_parts_def empty_parts_def)
  have m: "make_program_from_body_lines [?l1, ?l2] [] []
           = ''#include <iostream>'' @ [newline]
             @ [newline]
             @ [newline] @ ''using namespace std;'' @ [newline, newline]
             @ ''int main(int argc, char *argv[]) {'' @ [newline]
             @ ''    // ('' @ tag @ '') ERROR: user snippet contains '' @ [CHR 0x27]
                 @ ''int main('' @ [CHR 0x27] @ ''. This is disallowed for custom keywords.'' @ [newline]
             @ ''    // Please redefine this custom keyword without a main() function.'' @ [newline]
             @ ''    return 0;'' @ [newline]
             @ ''}'' @ [newline]"
    by (simp add: make_program_from_body_lines_def)
  show ?thesis
    unfolding r e
    using n c a m by simp
qed

theorem entry_point_rejected_witness:
  "find_str ''int main('' (substitute_params [(''m'', ''main'')] [] ''int {m}() { return 1; }'') = Some 0
   \<and> parts_from_user_snippet_with_params
        \<lparr>snippet = ''int {m}() { return 1; }'', params = [(''m'', ''main'')]\<rparr> [] ''occurrence 1 (token 1)''
      = \<lparr>p_includes = [], p_top = [],
         p_body = [''// (occurrence 1 (token 1)) ERROR: user snippet contains '' @ [CHR 0x27]
                     @ ''int main('' @ [CHR 0x27] @ ''. This is disallowed for custom keywords.'',
                   ''// Please redefine this custom keyword without a main() function.'']\<rparr>"
proof -
  let ?uk = "\<lparr>snippet = ''int {m}() { return 1; }'', params = [(''m'', ''main'')]\<rparr>"
  have f: "find_str ''int main('' (substitute_params [(''m'', ''main'')] [] ''int {m}() { return 1; }'') = Some 0"
    by code_simp
  then have h: "find_str ''int main('' (substitute_params (params ?uk) [] (snippet ?uk)) \<noteq> None"
    by simp
  have "parts_from_user_snippet_with_params ?uk [] ''occurrence 1 (token 1)''
      = \<lparr>p_includes = [], p_top = [],
         p_body = [''// ('' @ ''occurrence 1 (token 1)'' @ '') ERROR: user snippet contains '' @ [CHR 0x27]
                     @ ''int main('' @ [CHR 0x27] @ ''. This is disallowed for custom keywords.'',
                   ''// Please redefine this custom keyword without a main() function.'']\<rparr>"
    using entry_point_rejected [OF h, of "''occurrence 1 (token 1)''" empty_parts] by blast
  then have p: "parts_from_user_snippet_with_params ?uk [] ''occurrence 1 (token 1)''
      = \<lparr>p_includes = [], p_top = [],
         p_body = [''// (occurrence 1 (token 1)) ERROR: user snippet contains '' @ [CHR 0x27]
                     @ ''int main('' @ [CHR 0x27] @ ''. This is disallowed for custom keywords.'',
                   ''// Please redefine this custom keyword without a main() function.'']\<rparr>"
    by simp
  from f p show ?thesis by blast
qed

section \<open>Include lines of a snippet\<close>

lemma scan_snippet_lines_body:
  "p_body (scan_snippet_lines ls p) = p_body p @ filter (\<lambda>l. \<not> is_include_line l) ls"
  by (induction ls arbitrary: p) (auto simp: Let_def is_include_line_def)

lemma scan_snippet_lines_top: "p_top (scan_snippet_lines ls p) = p_top p"
  by (induction ls arbitrary: p) (auto simp: Let_def)

lemma scan_snippet_lines_includes:
  "list_all (\<lambda>l. \<not> prefix ''# include'' (trim l)) ls \<Longrightarrow>
   p_includes (scan_snippet_lines ls p)
     = p_includes p @ filter (\<lambda>r. r \<noteq> [])
         (map (\<lambda>l. trim (drop 8 (trim l))) (filter (\<lambda>l. prefix ''#include'' (trim l)) ls))"
  by (induction ls arbitrary: p) (auto simp: Let_def)

lemma snippet_parts:
  assumes "find_str ''int main('' (substitute_params (params uk) values (snippet uk)) = None"
  shows "p_body (parts_from_user_snippet_with_params uk values tag)
           = snippet_header tag
             # filter (\<lambda>l. \<not> is_include_line l)
                 (getlines newline (substitute_params (params uk) values (snippet uk)))"
    and "p_top (parts_from_user_snippet_with_params uk values tag) = []"
  using assms
  by (simp_all add: parts_from_user_snippet_with_params_def Let_def scan_snippet_lines_body
        scan_snippet_lines_top empty_parts_def)

text \<open>
  C7. The spaced form \<open># include\<close> is nine bytes long, and the source drops eight
  (\<^verbatim>\<open>tline.substr(8)\<close>, as for \<open>#include\<close>). On the snippet line \<open># include <vector>\<close> the
  captured include entry is therefore \<open>e <vector>\<close>, not the remainder \<open><vector>\<close> behind
  the include token. The line is kept out of the body and the header comment is prepended,
  as the lemmas above show for every body that passes the entry-point guard.
\<close>

theorem spaced_include_remainder:
  "parts_from_user_snippet_with_params
      \<lparr>snippet = ''# include <vector>'' @ [newline] @ ''int v;'' @ [newline], params = []\<rparr> []
      ''occurrence 1 (token 1)''
   = \<lparr>p_includes = [''e <vector>''], p_top = [],
      p_body = [snippet_header ''occurrence 1 (token 1)'', ''int v;'']\<rparr>"
  by code_simp

section \<open>Program assembly\<close>

lemma set_set_insert: "set (set_insert k xs) = insert k (set xs)"
  by (induction xs) auto

lemma sorted_set_insert: "sorted_wrt (<) xs \<Longrightarrow> sorted_wrt (<) (set_insert k xs)"
  by (induction xs) (auto simp: set_set_insert)

lemma collect_include_keys_props:
  "sorted_wrt (<) uniq \<Longrightarrow>
   sorted_wrt (<) (collect_include_keys hs uniq) \<and>
   set (collect_include_keys hs uniq)
     = set uniq \<union> set (filter include_key_ok (map normalize_include_for_key hs))"
proof (induction hs arbitrary: uniq)
  case Nil
  then show ?case by simp
next
  case (Cons h hs)
  show ?case
  proof (cases "include_key_ok (normalize_include_for_key h)")
    case False
    then show ?thesis using Cons.IH [OF Cons.prems] by (auto simp: include_key_ok_def Let_def)
  next
    case True
    from Cons.IH [OF sorted_set_insert [OF Cons.prems, of "normalize_include_for_key h"]] True
    show ?thesis by (auto simp: include_key_ok_def Let_def set_set_insert)
  qed
qed

lemma collect_include_keys_sorted_list:
  "collect_include_keys hs [] =
     sorted_list_of_set (set (filter include_key_ok (map normalize_include_for_key hs)))"
proof -
  from collect_include_keys_props [of "[]" hs]
  have s: "sorted_wrt (<) (collect_include_keys hs [])"
    and e: "set (collect_include_keys hs [])
            = set (filter include_key_ok (map normalize_include_for_key hs))"
    by simp_all
  from s have "sorted (collect_include_keys hs [])" "distinct (collect_include_keys hs [])"
    by (simp_all add: strict_sorted_iff)
  then have "sorted_list_of_set (set (collect_include_keys hs [])) = collect_include_keys hs []"
    by (rule sorted_list_of_set.idem_if_sorted_distinct)
  with e show ?thesis by simp
qed

text \<open>
  C8, as stated, fails: the includes are not deduplicated by exact textual match. The two
  aggregated entries \<open>vector\<close> and \<open><vector>\<close> differ as texts, and the assembled program
  has one directive for both, in the bracketed form, where the stated rule gives two.
\<close>

theorem include_dedup_counterexample:
  "make_program_from_body_lines [] [''vector'', ''<vector>''] []
     \<noteq> assemble_as_specified [] [''vector'', ''<vector>''] []"
  by code_simp

text \<open>
  C8, amended. The assembled text is: the core include; then one directive per include key,
  where the key of an entry is the entry trimmed, kept as it is when bracketed or quoted and
  wrapped in angle brackets otherwise, empty keys and the key of the core include are left
  out, and the remaining keys are emitted once each in ascending order; an empty line; every
  top-level declaration in order, one per line; \<open>using namespace std;\<close> between empty lines;
  the entry point with every body line indented by four blanks, and \<open>return 0;\<close>.
\<close>

theorem program_assembly:
  "make_program_from_body_lines body_lines extra_includes extra_top =
     ''#include <iostream>'' @ [newline]
     @ concat (map (\<lambda>k. ''#include '' @ k @ [newline])
         (sorted_list_of_set
            (set (filter include_key_ok (map normalize_include_for_key extra_includes)))))
     @ [newline]
     @ concat (map (\<lambda>t. t @ [newline]) extra_top)
     @ [newline] @ ''using namespace std;'' @ [newline, newline]
     @ ''int main(int argc, char *argv[]) {'' @ [newline]
     @ concat (map (\<lambda>line. ''    '' @ line @ [newline]) body_lines)
     @ ''    return 0;'' @ [newline]
     @ ''}'' @ [newline]"
  unfolding make_program_from_body_lines_def collect_include_keys_sorted_list ..

theorem program_assembly_witness:
  "make_program_from_body_lines [''int x = 0;'']
      [''vector'', '' <vector> '', [CHR 0x22] @ ''local.h'' @ [CHR 0x22], ''<iostream>'', ''  '', ''<map>'']
      [''struct S {};'']
   = ''#include <iostream>'' @ [newline]
     @ ''#include '' @ [CHR 0x22] @ ''local.h'' @ [CHR 0x22] @ [newline]
     @ ''#include <map>'' @ [newline]
     @ ''#include <vector>'' @ [newline]
     @ [newline]
     @ ''struct S {};'' @ [newline]
     @ [newline] @ ''using namespace std;'' @ [newline, newline]
     @ ''int main(int argc, char *argv[]) {'' @ [newline]
     @ ''    int x = 0;'' @ [newline]
     @ ''    return 0;'' @ [newline]
     @ ''}'' @ [newline]"
proof -
  have k: "sorted_list_of_set (set (filter include_key_ok (map normalize_include_for_key
             [''vector'', '' <vector> '', [CHR 0x22] @ ''local.h'' @ [CHR 0x22], ''<iostream>'', ''  '', ''<map>''])))
           = [[CHR 0x22] @ ''local.h'' @ [CHR 0x22], ''<map>'', ''<vector>'']"
    by code_simp
  show ?thesis
    unfolding program_assembly k by simp
qed

section \<open>The loader\<close>

lemma dropWhile_hd_id: "xs \<noteq> [] \<Longrightarrow> \<not> P (hd xs) \<Longrightarrow> dropWhile P xs = xs"
  by (cases xs) auto

lemma trim_idem: "trim (trim s) = trim s"
proof -
  define t where "t = dropWhile isspace s"
  define u where "u = dropWhile isspace (rev t)"
  have ts: "trim s = rev u" by (simp add: trim_def t_def u_def)
  have front: "dropWhile isspace (rev u) = rev u"
  proof (cases "u = []")
    case True
    then show ?thesis by simp
  next
    case False
    then have tne: "t \<noteq> []" by (auto simp: u_def)
    obtain pre where "rev t = pre @ u"
      unfolding u_def by (metis takeWhile_dropWhile_id)
    with False have "last u = last (rev t)" by simp
    also have "\<dots> = hd t" using tne by (simp add: last_rev)
    finally have "hd (rev u) = hd t" using False by (simp add: hd_rev)
    moreover have "\<not> isspace (hd t)" using tne unfolding t_def by (rule hd_dropWhile)
    ultimately show ?thesis using False by (intro dropWhile_hd_id) auto
  qed
  have "trim (rev u) = rev (dropWhile isspace (rev (rev u)))"
    unfolding trim_def front ..
  also have "\<dots> = rev (dropWhile isspace u)" by simp
  also have "dropWhile isspace u = u" unfolding u_def by (rule dropWhile_idem)
  finally show ?thesis unfolding ts .
qed

lemma marker_payload_trimmed: "marker_payload l = Some k \<Longrightarrow> trim k = k"
  by (auto simp: marker_payload_def trim_idem split: option.splits if_splits)

lemma parse_param_items_acc: "parse_param_items ps acc = acc @ parse_param_items ps []"
proof (induction ps arbitrary: acc)
  case Nil
  show ?case by simp
next
  case (Cons p ps)
  show ?case
    using Cons.IH [of "acc @ [(trim (case find_str ''='' p of None \<Rightarrow> p | Some e \<Rightarrow> take e p),
                               trim (case find_str ''='' p of None \<Rightarrow> [] | Some e \<Rightarrow> drop (e + 1) p))]"]
          Cons.IH [of "[(trim (case find_str ''='' p of None \<Rightarrow> p | Some e \<Rightarrow> take e p),
                               trim (case find_str ''='' p of None \<Rightarrow> [] | Some e \<Rightarrow> drop (e + 1) p))]"]
          Cons.IH [of acc]
    by (simp add: Let_def)
qed

lemma UserKeyword_eta: "\<lparr>snippet = snippet (x::UserKeyword), params = params x\<rparr> = x"
  by (cases x) simp

lemma not_prefix_params_end: "\<not> prefix ''===PARAMS:'' ''===END===''"
  by simp

lemma load_step_params:
  "in_entry st \<Longrightarrow> prefix ''===PARAMS:'' l \<Longrightarrow>
   load_step st l = st\<lparr>current_params := current_params st @ params_of_line l\<rparr>"
  using parse_param_items_acc [of _ "current_params st"]
  by (auto simp: load_step_def params_of_line_def split: option.splits)

lemma load_step_body:
  "in_entry st \<Longrightarrow> \<not> prefix ''===PARAMS:'' l \<Longrightarrow> l \<noteq> ''===END==='' \<Longrightarrow>
   load_step st l = st\<lparr>buffer := buffer st @ l @ [newline]\<rparr>"
  by (simp add: load_step_def)

lemma load_run_in_entry:
  "in_entry st \<Longrightarrow> ''===END==='' \<notin> set ls \<Longrightarrow>
   foldl load_step st ls =
     st\<lparr>current_params := current_params st @ params (block_entry ls),
        buffer := buffer st @ snippet (block_entry ls)\<rparr>"
proof (induction ls arbitrary: st)
  case Nil
  then show ?case by (simp add: block_entry_def)
next
  case (Cons l ls)
  from Cons.prems have ne: "l \<noteq> ''===END===''" and rest: "''===END==='' \<notin> set ls" by auto
  show ?case
  proof (cases "prefix ''===PARAMS:'' l")
    case True
    let ?st' = "st\<lparr>current_params := current_params st @ params_of_line l\<rparr>"
    have s: "load_step st l = ?st'" using Cons.prems(1) True by (rule load_step_params)
    have i: "in_entry ?st'" using Cons.prems(1) by simp
    show ?thesis
      using Cons.IH [OF i rest] True by (simp add: s block_entry_def)
  next
    case False
    let ?st' = "st\<lparr>buffer := buffer st @ l @ [newline]\<rparr>"
    have s: "load_step st l = ?st'" using Cons.prems(1) False ne by (rule load_step_body)
    have i: "in_entry ?st'" using Cons.prems(1) by simp
    show ?thesis
      using Cons.IH [OF i rest] False by (simp add: s block_entry_def)
  qed
qed

lemma load_step_open:
  "\<not> in_entry st \<Longrightarrow> prefix ''===KEYWORD:'' l \<Longrightarrow> marker_payload l = Some k \<Longrightarrow>
   load_step st l = st\<lparr>current_key := k, current_params := [], buffer := [], in_entry := True\<rparr>"
  by (simp add: load_step_def)

lemma load_step_end:
  "in_entry st \<Longrightarrow>
   load_step st ''===END==='' =
     st\<lparr>out_map := map_assign (trim (current_key st))
                      \<lparr>snippet = buffer st, params = current_params st\<rparr> (out_map st),
           in_entry := False, current_key := [], current_params := [], buffer := []\<rparr>"
  by (simp add: load_step_def)

text \<open>A closed block, read from outside an entry.\<close>

lemma load_run_block:
  assumes "\<not> in_entry st" "prefix ''===KEYWORD:'' kw" "marker_payload kw = Some k"
    "''===END==='' \<notin> set mid"
  shows "foldl load_step st (kw # mid @ [''===END===''])
         = st\<lparr>out_map := map_assign k (block_entry mid) (out_map st),
              in_entry := False, current_key := [], current_params := [], buffer := []\<rparr>"
proof -
  let ?s1 = "st\<lparr>current_key := k, current_params := [], buffer := [], in_entry := True\<rparr>"
  have 1: "load_step st kw = ?s1" using assms(1-3) by (rule load_step_open)
  have i1: "in_entry ?s1" by simp
  let ?s2 = "?s1\<lparr>current_params := current_params ?s1 @ params (block_entry mid),
        buffer := buffer ?s1 @ snippet (block_entry mid)\<rparr>"
  have 2: "foldl load_step ?s1 mid = ?s2" using i1 assms(4) by (rule load_run_in_entry)
  have i2: "in_entry ?s2" by simp
  have 3: "load_step ?s2 ''===END===''
      =  ?s2\<lparr>out_map := map_assign (trim (current_key ?s2))
                      \<lparr>snippet = buffer ?s2, params = current_params ?s2\<rparr> (out_map ?s2),
           in_entry := False, current_key := [], current_params := [], buffer := []\<rparr>"
    using i2 by (rule load_step_end)
  have "foldl load_step st (kw # mid @ [''===END===''])
          = load_step (foldl load_step (load_step st kw) mid) ''===END===''" by simp
  also have "\<dots> = load_step ?s2 ''===END===''" unfolding 1 2 ..
  finally show ?thesis
    unfolding 3 using marker_payload_trimmed [OF assms(3)] by (simp add: UserKeyword_eta)
qed

text \<open>An open block, read from outside an entry up to the end of the file.\<close>

lemma load_run_open_block:
  assumes "\<not> in_entry st" "prefix ''===KEYWORD:'' kw" "marker_payload kw = Some k"
    "''===END==='' \<notin> set rest"
  shows "load_finish (foldl load_step st (kw # rest))
         = (if k \<noteq> [] then map_assign k (block_entry rest) (out_map st) else out_map st)"
proof -
  let ?s1 = "st\<lparr>current_key := k, current_params := [], buffer := [], in_entry := True\<rparr>"
  have 1: "load_step st kw = ?s1" using assms(1-3) by (rule load_step_open)
  have i1: "in_entry ?s1" by simp
  let ?s2 = "?s1\<lparr>current_params := current_params ?s1 @ params (block_entry rest),
        buffer := buffer ?s1 @ snippet (block_entry rest)\<rparr>"
  have 2: "foldl load_step ?s1 rest = ?s2" using i1 assms(4) by (rule load_run_in_entry)
  have "foldl load_step st (kw # rest) = ?s2" using 1 2 by simp
  then show ?thesis
    using marker_payload_trimmed [OF assms(3)] by (simp add: load_finish_def UserKeyword_eta)
qed

text \<open>
  C9, as stated, fails when the two blocks carry the same name: the map has one entry per
  name, the commit of the truncated block overwrites the entry of the well-formed block,
  and the loaded map no longer contains the well-formed entry.
\<close>

theorem truncated_block_same_name_counterexample:
  "load_user_keywords (Some (''===KEYWORD:a==='' @ [newline] @ ''x'' @ [newline]
       @ ''===END==='' @ [newline] @ ''===KEYWORD:a==='' @ [newline] @ ''y'' @ [newline]))
     = [(''a'', \<lparr>snippet = ''y'' @ [newline], params = []\<rparr>)]
   \<and> map_find ''a'' (load_user_keywords (Some (''===KEYWORD:a==='' @ [newline] @ ''x'' @ [newline]
       @ ''===END==='' @ [newline] @ ''===KEYWORD:a==='' @ [newline] @ ''y'' @ [newline])))
     \<noteq> Some \<lparr>snippet = ''x'' @ [newline], params = []\<rparr>"
  by code_simp

text \<open>
  C9, amended. Let the lines of the file be an opening \<open>KEYWORD\<close> line of name \<open>k1\<close>, lines
  \<open>body1\<close> without an end marker, the end marker, an opening \<open>KEYWORD\<close> line of a non-empty
  name \<open>k2\<close>, and lines \<open>body2\<close> without an end marker up to the end of the file. Then the
  loader commits both blocks: the loaded map is the empty map with \<open>k1\<close> assigned the entry
  of \<open>body1\<close> and then \<open>k2\<close> assigned the entry of \<open>body2\<close>, where the entry of a block holds
  the parameters of its \<open>PARAMS\<close> lines and its other lines as the body. So the truncated
  block's entry is always there, and the well-formed one is there when the names differ.
\<close>

theorem truncated_block_committed:
  assumes "getlines newline text = kw1 # body1 @ [''===END===''] @ kw2 # body2"
    and "prefix ''===KEYWORD:'' kw1" "marker_payload kw1 = Some k1" "''===END==='' \<notin> set body1"
    and "prefix ''===KEYWORD:'' kw2" "marker_payload kw2 = Some k2" "''===END==='' \<notin> set body2"
    and "k2 \<noteq> []"
  shows "load_user_keywords (Some text)
           = map_assign k2 (block_entry body2) (map_assign k1 (block_entry body1) [])
         \<and> map_find k2 (load_user_keywords (Some text)) = Some (block_entry body2)
         \<and> (k1 \<noteq> k2 \<longrightarrow> map_find k1 (load_user_keywords (Some text)) = Some (block_entry body1))"
proof -
  let ?st = "load_init\<lparr>out_map := map_assign k1 (block_entry body1) (out_map load_init),
              in_entry := False, current_key := [], current_params := [], buffer := []\<rparr>"
  have n0: "\<not> in_entry load_init" by (simp add: load_init_def)
  have b1: "foldl load_step load_init (kw1 # body1 @ [''===END===''])= ?st"
    using n0 assms(2,3,4) by (rule load_run_block)
  have n1: "\<not> in_entry ?st" by simp
  have "load_lines (kw1 # body1 @ [''===END===''] @ kw2 # body2)
        = load_finish (foldl load_step
            (foldl load_step load_init (kw1 # body1 @ [''===END==='']))  (kw2 # body2))"
  proof -
    have "kw1 # body1 @ [''===END===''] @ kw2 # body2
            = (kw1 # body1 @ [''===END==='']) @ (kw2 # body2)"
      by simp
    then show ?thesis unfolding load_lines_def by (simp only: foldl_append)
  qed
  also have "\<dots> = load_finish (foldl load_step ?st (kw2 # body2))" unfolding b1 ..
  also have "\<dots> = (if k2 \<noteq> [] then map_assign k2 (block_entry body2) (out_map ?st)
                    else out_map ?st)"
    using n1 assms(5,6,7) by (rule load_run_open_block)
  finally have r: "load_user_keywords (Some text)
           = map_assign k2 (block_entry body2) (map_assign k1 (block_entry body1) [])"
    using assms(1,8) by (simp add: load_user_keywords_def load_init_def)
  show ?thesis unfolding r by (simp add: map_find_map_assign del: map_assign.simps)
qed

theorem truncated_block_committed_witness:
  "load_user_keywords (Some (''===KEYWORD:a==='' @ [newline] @ ''x'' @ [newline]
       @ ''===END==='' @ [newline] @ ''===KEYWORD: b ==='' @ [newline]
       @ ''===PARAMS:u=1, v==='' @ [newline] @ ''y''))
     = [(''a'', \<lparr>snippet = ''x'' @ [newline], params = []\<rparr>),
        (''b'', \<lparr>snippet = ''y'' @ [newline], params = [(''u'', ''1''), (''v'', [])]\<rparr>)]"
proof -
  let ?text = "''===KEYWORD:a==='' @ [newline] @ ''x'' @ [newline]
       @ ''===END==='' @ [newline] @ ''===KEYWORD: b ==='' @ [newline]
       @ ''===PARAMS:u=1, v==='' @ [newline] @ ''y''"
  have 1: "getlines newline ?text
        = ''===KEYWORD:a==='' # [''x''] @ [''===END===''] @ ''===KEYWORD: b ==='' # [''===PARAMS:u=1, v==='', ''y'']"
    by code_simp
  have 2: "prefix ''===KEYWORD:'' ''===KEYWORD:a===''" by simp
  have 3: "marker_payload ''===KEYWORD:a==='' = Some ''a''" by code_simp
  have 4: "''===END==='' \<notin> set [''x'']" by simp
  have 5: "prefix ''===KEYWORD:'' ''===KEYWORD: b ===''" by simp
  have 6: "marker_payload ''===KEYWORD: b ==='' = Some ''b''" by code_simp
  have 7: "''===END==='' \<notin> set [''===PARAMS:u=1, v==='', ''y'']" by simp
  have 8: "''b'' \<noteq> []" by simp
  have e: "map_assign ''b'' (block_entry [''===PARAMS:u=1, v==='', ''y''])
             (map_assign ''a'' (block_entry [''x'']) [])
     = [(''a'', \<lparr>snippet = ''x'' @ [newline], params = []\<rparr>),
        (''b'', \<lparr>snippet = ''y'' @ [newline], params = [(''u'', ''1''), (''v'', [])]\<rparr>)]"
    by code_simp
  from truncated_block_committed [OF 1 2 3 4 5 6 7 8] e show ?thesis by simp
qed

section \<open>Lines, markers and trimming\<close>

lemma trim_Nil: "trim [] = []"
  by (simp add: trim_def)

lemma trim_id:
  assumes "s \<noteq> []" "\<not> isspace (hd s)" "\<not> isspace (last s)"
  shows "trim s = s"
proof -
  have 1: "dropWhile isspace s = s" using assms(1,2) by (rule dropWhile_hd_id)
  have "hd (rev s) = last s" using assms(1) by (simp add: hd_rev)
  then have 2: "dropWhile isspace (rev s) = rev s"
    using assms(1,3) by (intro dropWhile_hd_id) auto
  show ?thesis unfolding trim_def 1 2 by simp
qed

lemma trim_fixed_ends:
  assumes "trim s = s" "s \<noteq> []"
  shows "\<not> isspace (hd s)" "\<not> isspace (last s)"
proof -
  define t where "t = dropWhile isspace s"
  define u where "u = dropWhile isspace (rev t)"
  have su: "s = rev u" using assms(1) by (simp add: trim_def t_def u_def)
  with assms(2) have une: "u \<noteq> []" by simp
  have "\<not> isspace (hd u)" using une unfolding u_def by (rule hd_dropWhile)
  then show "\<not> isspace (last s)" using une su by (simp add: last_rev)
  have "length t \<le> length s" unfolding t_def by (rule length_dropWhile_le)
  moreover have "length u \<le> length t"
    unfolding u_def using length_dropWhile_le [of isspace "rev t"] by simp
  moreover have "length s = length u" using su by simp
  ultimately have "length t = length s" by simp
  then have "t = s"
    unfolding t_def by (metis dropWhile_eq_drop length_drop diff_is_0_eq' diff_diff_cancel
        le_refl length_takeWhile_le drop0 diff_self_eq_0)
  then show "\<not> isspace (hd s)" using assms(2) hd_dropWhile [of isspace s] by (simp add: t_def)
qed

lemma find_char_first: "c \<notin> set a \<Longrightarrow> find_str [c] (a @ c # r) = Some (length a)"
  by (induction a) auto

lemma find_char_absent: "c \<notin> set s \<Longrightarrow> find_str [c] s = None"
  by (induction s) auto

lemma rfind_str_bound: "rfind_str tok s = Some i \<Longrightarrow> i + length tok \<le> length s"
proof (induction s arbitrary: i)
  case Nil
  then show ?case by (simp split: if_splits)
next
  case (Cons c cs)
  show ?case
  proof (cases "rfind_str tok cs")
    case None
    with Cons.prems have p: "prefix tok (c # cs)" and "i = 0" by (auto split: if_splits)
    with prefix_length_le [OF p] show ?thesis by simp
  next
    case (Some j)
    with Cons.prems have "i = Suc j" by simp
    with Cons.IH [OF Some] show ?thesis by simp
  qed
qed

lemma rfind_str_self: "tok \<noteq> [] \<Longrightarrow> rfind_str tok tok = Some 0"
proof -
  assume ne: "tok \<noteq> []"
  then obtain c cs where t: "tok = c # cs" by (cases tok) auto
  have "rfind_str tok cs = None"
  proof (cases "rfind_str tok cs")
    case (Some i)
    from rfind_str_bound [OF Some] t show ?thesis by simp
  qed simp
  then show ?thesis using t by simp
qed

lemma rfind_str_suffix: "tok \<noteq> [] \<Longrightarrow> rfind_str tok (xs @ tok) = Some (length xs)"
  by (induction xs) (simp_all add: rfind_str_self)

lemma getlines_Nil: "getlines d [] = []"
  by (subst getlines.simps) simp

lemma getlines_line: "d \<notin> set a \<Longrightarrow> getlines d (a @ d # r) = a # getlines d r"
proof -
  assume a: "d \<notin> set a"
  have t: "takeWhile (\<lambda>c. c \<noteq> d) (a @ d # r) = a"
    using a by (induction a) auto
  have dr: "dropWhile (\<lambda>c. c \<noteq> d) (a @ d # r) = d # r"
    using a by (induction a) auto
  show ?thesis by (subst getlines.simps) (simp add: t dr)
qed

lemma getlines_last: "d \<notin> set a \<Longrightarrow> a \<noteq> [] \<Longrightarrow> getlines d a = [a]"
proof -
  assume a: "d \<notin> set a" "a \<noteq> []"
  have t: "takeWhile (\<lambda>c. c \<noteq> d) a = a" using a(1) by (induction a) auto
  have dr: "dropWhile (\<lambda>c. c \<noteq> d) a = []" using a(1) by (induction a) auto
  show ?thesis using a(2) by (subst getlines.simps) (simp add: t dr getlines_Nil)
qed

lemma terminated_split:
  assumes "s \<noteq> []" "last s = d"
  obtains a r where "s = a @ d # r" "d \<notin> set a" "r = [] \<or> last r = d"
proof -
  from assms have "d \<in> set s" by (metis last_in_set)
  then obtain a r where s: "s = a @ d # r" "d \<notin> set a" by (metis split_list_first)
  with assms have "r = [] \<or> last r = d" by (cases "r = []") auto
  with s that show ?thesis by blast
qed

lemma getlines_append:
  "s = [] \<or> last s = d \<Longrightarrow> getlines d (s @ t) = getlines d s @ getlines d t"
proof (induction s rule: length_induct)
  case (1 s)
  show ?case
  proof (cases "s = []")
    case True
    then show ?thesis by (simp add: getlines_Nil)
  next
    case False
    with 1(2) have "last s = d" by simp
    with False obtain a r where s: "s = a @ d # r" "d \<notin> set a" "r = [] \<or> last r = d"
      by (rule terminated_split)
    have "length r < length s" using s(1) by simp
    with 1(1) s(3) have IH: "getlines d (r @ t) = getlines d r @ getlines d t" by blast
    have "getlines d (s @ t) = a # getlines d (r @ t)"
      using getlines_line [OF s(2), of "r @ t"] s(1) by simp
    also have "\<dots> = (a # getlines d r) @ getlines d t" using IH by simp
    also have "a # getlines d r = getlines d s" using getlines_line [OF s(2), of r] s(1) by simp
    finally show ?thesis .
  qed
qed

lemma getlines_concat:
  "s = [] \<or> last s = d \<Longrightarrow> concat (map (\<lambda>l. l @ [d]) (getlines d s)) = s"
proof (induction s rule: length_induct)
  case (1 s)
  show ?case
  proof (cases "s = []")
    case True
    then show ?thesis by (simp add: getlines_Nil)
  next
    case False
    with 1(2) have "last s = d" by simp
    with False obtain a r where s: "s = a @ d # r" "d \<notin> set a" "r = [] \<or> last r = d"
      by (rule terminated_split)
    have "length r < length s" using s(1) by simp
    with 1(1) s(3) have IH: "concat (map (\<lambda>l. l @ [d]) (getlines d r)) = r" by blast
    have "getlines d s = a # getlines d r" using getlines_line [OF s(2), of r] s(1) by simp
    then show ?thesis using IH s(1) by simp
  qed
qed

lemma getlines_separated:
  "\<forall>x\<in>set (a # as). d \<notin> set x \<and> x \<noteq> [] \<Longrightarrow>
   getlines d (a @ concat (map (\<lambda>q. d # q) as)) = a # as"
proof (induction as arbitrary: a)
  case Nil
  then show ?case by (simp add: getlines_last)
next
  case (Cons b bs)
  from Cons.prems have a: "d \<notin> set a" and r: "\<forall>x\<in>set (b # bs). d \<notin> set x \<and> x \<noteq> []" by auto
  have "getlines d (a @ d # (b @ concat (map (\<lambda>q. d # q) bs))) = a # getlines d (b @ concat (map (\<lambda>q. d # q) bs))"
    using a by (rule getlines_line)
  with Cons.IH [OF r] show ?case by simp
qed

section \<open>Writing and reading back a parameter line\<close>

lemma write_params_False: "write_params False ps = concat (map (\<lambda>q. CHR '','' # param_item q) ps)"
  by (induction ps) (simp_all add: param_item_def)

lemma write_params_True:
  "write_params True (p # ps) = param_item p @ concat (map (\<lambda>q. CHR '','' # param_item q) ps)"
  by (simp add: write_params_False param_item_def)

lemma isspace_eq: "\<not> isspace CHR ''=''"
  by (simp add: isspace_def)

lemma isspace_newline: "isspace newline"
  by (simp add: isspace_def newline_def)

lemma param_item_props:
  assumes "valid_param p"
  shows "param_item p \<noteq> []" "CHR '','' \<notin> set (param_item p)" "newline \<notin> set (param_item p)"
    "\<not> isspace (hd (param_item p))" "\<not> isspace (last (param_item p))" "trim (param_item p) = param_item p"
proof -
  from assms have n: "fst p \<noteq> []" "trim (fst p) = fst p" "trim (snd p) = snd p"
    and c: "CHR '','' \<notin> set (fst p)" "CHR '','' \<notin> set (snd p)"
    and l: "newline \<notin> set (fst p)" "newline \<notin> set (snd p)"
    by (simp_all add: valid_param_def)
  show 1: "param_item p \<noteq> []" by (simp add: param_item_def)
  show "CHR '','' \<notin> set (param_item p)" using c by (simp add: param_item_def)
  show "newline \<notin> set (param_item p)" using l by (simp add: param_item_def newline_def)
  have "hd (param_item p) = hd (fst p)" using n(1) by (simp add: param_item_def)
  then show 2: "\<not> isspace (hd (param_item p))" using trim_fixed_ends(1) [OF n(2) n(1)] by simp
  show 3: "\<not> isspace (last (param_item p))"
  proof (cases "snd p = []")
    case True
    then show ?thesis by (simp add: param_item_def isspace_eq)
  next
    case False
    then have "last (param_item p) = last (snd p)" by (simp add: param_item_def)
    then show ?thesis using trim_fixed_ends(2) [OF n(3) False] by simp
  qed
  show "trim (param_item p) = param_item p" using 1 2 3 by (rule trim_id)
qed

lemma parse_item:
  assumes "valid_param p"
  shows "parse_param_items (param_item p # xs) [] = p # parse_param_items xs []"
proof -
  from assms have n: "fst p \<noteq> []" "trim (fst p) = fst p" "trim (snd p) = snd p"
    and e: "CHR ''='' \<notin> set (fst p)"
    by (simp_all add: valid_param_def)
  have f: "find_str ''='' (param_item p) = Some (length (fst p))"
    using find_char_first [OF e, of "snd p"] by (simp add: param_item_def)
  have t: "take (length (fst p)) (param_item p) = fst p" by (simp add: param_item_def)
  have d: "drop (Suc (length (fst p))) (param_item p) = snd p" by (simp add: param_item_def)
  have "parse_param_items (param_item p # xs) [] = parse_param_items xs [(fst p, snd p)]"
    using n by (simp add: f t d Let_def del: find_str.simps)
  also have "\<dots> = [(fst p, snd p)] @ parse_param_items xs []" by (rule parse_param_items_acc)
  finally show ?thesis by simp
qed

lemma parse_items: "list_all valid_param ps \<Longrightarrow> parse_param_items (map param_item ps) [] = ps"
  by (induction ps) (simp_all add: parse_item del: parse_param_items.simps(2))

lemma split_csv_write_params:
  assumes "list_all valid_param ps" "ps \<noteq> []"
  shows "split_csv (write_params True ps) = map param_item ps"
proof -
  from assms(2) obtain p qs where ps: "ps = p # qs" by (cases ps) auto
  have "\<forall>x\<in>set (param_item p # map param_item qs). CHR '','' \<notin> set x \<and> x \<noteq> []"
    using assms(1) param_item_props(1,2) unfolding ps by (auto simp: list_all_iff)
  then have "getlines CHR '','' (param_item p @ concat (map (\<lambda>q. CHR '','' # q) (map param_item qs)))
             = param_item p # map param_item qs"
    by (rule getlines_separated)
  then have g: "getlines CHR '','' (write_params True ps) = map param_item ps"
    unfolding ps write_params_True by (simp add: comp_def)
  have "map trim (map param_item ps) = map param_item ps"
    using assms(1) param_item_props(6) by (induction ps) auto
  with g show ?thesis by (simp add: split_csv_def)
qed

lemma write_params_props:
  assumes "list_all valid_param ps" "ps \<noteq> []"
  shows "write_params True ps \<noteq> []" "newline \<notin> set (write_params True ps)"
    "trim (write_params True ps) = write_params True ps"
proof -
  from assms(2) obtain p qs where ps: "ps = p # qs" by (cases ps) auto
  from assms(1) have vp: "valid_param p" and vq: "list_all valid_param qs" by (simp_all add: ps)
  show ne: "write_params True ps \<noteq> []"
    unfolding ps write_params_True using param_item_props(1) [OF vp] by simp
  have "newline \<notin> set (concat (map (\<lambda>q. CHR '','' # param_item q) qs))"
    using vq param_item_props(3) by (induction qs) (auto simp: newline_def)
  then show "newline \<notin> set (write_params True ps)"
    unfolding ps write_params_True using param_item_props(3) [OF vp] by simp
  have h: "\<not> isspace (hd (write_params True ps))"
    unfolding ps write_params_True using param_item_props(1,4) [OF vp] by simp
  have l: "\<not> isspace (last (write_params True ps))"
  proof (cases "qs = []")
    case True
    then show ?thesis unfolding ps write_params_True using param_item_props(5) [OF vp] by simp
  next
    case False
    then obtain rs r where qs: "qs = rs @ [r]" by (metis rev_exhaust)
    with vq have vr: "valid_param r" by simp
    have "last (write_params True ps) = last (param_item r)"
      unfolding ps write_params_True qs using param_item_props(1) [OF vr] by simp
    then show ?thesis using param_item_props(5) [OF vr] by simp
  qed
  show "trim (write_params True ps) = write_params True ps" using ne h l by (rule trim_id)
qed

lemma marker_payload_wrapped:
  assumes "CHR '':'' \<notin> set pre" "x \<noteq> []" "trim x = x"
  shows "marker_payload (pre @ '':'' @ x @ ''==='') = Some x"
proof -
  have f: "find_str '':'' (pre @ '':'' @ x @ ''==='') = Some (length pre)"
    using find_char_first [OF assms(1), of "x @ ''===''"] by simp
  have "rfind_str ''==='' ((pre @ '':'' @ x) @ ''==='') = Some (length (pre @ '':'' @ x))"
    by (rule rfind_str_suffix) simp
  then have r: "rfind_str ''==='' (pre @ '':'' @ x @ ''==='') = Some (length pre + 1 + length x)"
    by simp
  show ?thesis
    unfolding marker_payload_def f r using assms(2,3) by simp
qed

lemma marker_payload_keyword:
  "k \<noteq> [] \<Longrightarrow> trim k = k \<Longrightarrow> marker_payload (''===KEYWORD:'' @ k @ ''==='') = Some k"
  using marker_payload_wrapped [of "''===KEYWORD''" k] by simp

lemma marker_payload_params:
  "x \<noteq> [] \<Longrightarrow> trim x = x \<Longrightarrow> marker_payload (''===PARAMS:'' @ x @ ''==='') = Some x"
  using marker_payload_wrapped [of "''===PARAMS''" x] by simp

lemma params_of_written_line:
  assumes "list_all valid_param ps" "ps \<noteq> []"
  shows "params_of_line (''===PARAMS:'' @ write_params True ps @ ''==='') = ps"
  using marker_payload_params [OF write_params_props(1,3) [OF assms]]
        write_params_props(1) [OF assms] split_csv_write_params [OF assms] parse_items [OF assms(1)]
  by (simp add: params_of_line_def)

section \<open>Round trip through the file\<close>

lemma newline_not_in_markers:
  "newline \<notin> set ''===KEYWORD:''" "newline \<notin> set ''===PARAMS:''" "newline \<notin> set ''===''"
  "newline \<notin> set ''===END===''"
  by (simp_all add: newline_def)

lemma written_entry_lines:
  assumes "valid_entry (k, uk)"
  shows "getlines newline (write_entry (k, uk) @ rest)
         = (''===KEYWORD:'' @ k @ ''==='')
           # ((if params uk \<noteq> [] then [''===PARAMS:'' @ write_params True (params uk) @ ''===''] else [])
              @ getlines newline (snippet uk))
           @ [''===END===''] @ getlines newline rest"
proof -
  from assms have vn: "valid_name k" and vp: "list_all valid_param (params uk)"
    and vb: "valid_body (snippet uk)" by (simp_all add: valid_entry_def)
  from vb have fin: "snippet uk = [] \<or> last (snippet uk) = newline" by (simp add: valid_body_def)
  let ?kw = "''===KEYWORD:'' @ k @ ''===''"
  let ?pl = "''===PARAMS:'' @ write_params True (params uk) @ ''===''"
  let ?tail = "snippet uk @ ''===END==='' @ newline # rest"
  have nk: "newline \<notin> set ?kw" using vn newline_not_in_markers by (simp add: valid_name_def)
  have tail: "getlines newline ?tail = getlines newline (snippet uk) @ [''===END===''] @ getlines newline rest"
    using getlines_append [OF fin, of "''===END==='' @ newline # rest"]
          getlines_line [OF newline_not_in_markers(4), of rest] by simp
  show ?thesis
  proof (cases "params uk = []")
    case True
    have "write_entry (k, uk) @ rest = ?kw @ newline # ?tail"
      using True fin by (auto simp: write_entry_def)
    then show ?thesis using getlines_line [OF nk, of ?tail] tail True by simp
  next
    case False
    have np: "newline \<notin> set ?pl"
      using write_params_props(2) [OF vp False] newline_not_in_markers by simp
    have "write_entry (k, uk) @ rest = ?kw @ newline # (?pl @ newline # ?tail)"
      using False fin by (auto simp: write_entry_def)
    then show ?thesis
      using getlines_line [OF nk, of "?pl @ newline # ?tail"] getlines_line [OF np, of ?tail] tail False
      by simp
  qed
qed

lemma written_entry_block:
  assumes "valid_entry (k, uk)"
  defines "mid \<equiv> (if params uk \<noteq> [] then [''===PARAMS:'' @ write_params True (params uk) @ ''===''] else [])
              @ getlines newline (snippet uk)"
  shows "block_entry mid = uk" "''===END==='' \<notin> set mid"
proof -
  from assms(1) have vp: "list_all valid_param (params uk)"
    and vb: "valid_body (snippet uk)" by (simp_all add: valid_entry_def)
  from vb have fin: "snippet uk = [] \<or> last (snippet uk) = newline"
    and ls: "list_all (\<lambda>l. l \<noteq> ''===END==='' \<and> \<not> prefix ''===PARAMS:'' l) (getlines newline (snippet uk))"
    by (simp_all add: valid_body_def)
  let ?body = "getlines newline (snippet uk)"
  have fb: "filter (\<lambda>l. \<not> prefix ''===PARAMS:'' l) ?body = ?body"
    using ls by (simp add: list_all_iff)
  have fp: "filter (prefix ''===PARAMS:'') ?body = []"
    using ls by (simp add: list_all_iff filter_empty_conv)
  have sn: "concat (map (\<lambda>l. l @ [newline]) ?body) = snippet uk"
    using fin by (rule getlines_concat)
  have e: "''===END==='' \<notin> set ?body" using ls by (auto simp: list_all_iff)
  show "block_entry mid = uk"
  proof (cases "params uk = []")
    case True
    then show ?thesis by (simp add: mid_def block_entry_def fb fp sn)
  next
    case False
    then show ?thesis
      using params_of_written_line [OF vp False]
      by (simp add: mid_def block_entry_def fb fp sn)
  qed
  show "''===END==='' \<notin> set mid" using e by (simp add: mid_def)
qed

lemma written_entry_loaded:
  assumes "\<not> in_entry st" "valid_entry (k, uk)"
  shows "foldl load_step st (getlines newline (write_entry (k, uk) @ rest))
         = foldl load_step
             (st\<lparr>out_map := map_assign k uk (out_map st),
                 in_entry := False, current_key := [], current_params := [], buffer := []\<rparr>)
             (getlines newline rest)"
proof -
  let ?kw = "''===KEYWORD:'' @ k @ ''===''"
  let ?mid = "(if params uk \<noteq> [] then [''===PARAMS:'' @ write_params True (params uk) @ ''===''] else [])
              @ getlines newline (snippet uk)"
  from assms(2) have vn: "k \<noteq> []" "trim k = k" by (simp_all add: valid_entry_def valid_name_def)
  have p: "prefix ''===KEYWORD:'' ?kw" by simp
  have m: "marker_payload ?kw = Some k" using vn by (rule marker_payload_keyword)
  have b: "foldl load_step st (?kw # ?mid @ [''===END===''])
         = st\<lparr>out_map := map_assign k (block_entry ?mid) (out_map st),
              in_entry := False, current_key := [], current_params := [], buffer := []\<rparr>"
    using assms(1) p m written_entry_block(2) [OF assms(2)] by (rule load_run_block)
  have "getlines newline (write_entry (k, uk) @ rest)
          = (?kw # ?mid @ [''===END==='']) @ getlines newline rest"
    using written_entry_lines [OF assms(2), of rest] by simp
  then have "foldl load_step st (getlines newline (write_entry (k, uk) @ rest))
          = foldl load_step (foldl load_step st (?kw # ?mid @ [''===END===''])) (getlines newline rest)"
    by (simp only: foldl_append)
  then show ?thesis unfolding b written_entry_block(1) [OF assms(2)] .
qed

lemma written_store_loaded:
  "\<not> in_entry st \<Longrightarrow> list_all valid_entry m \<Longrightarrow>
   \<not> in_entry (foldl load_step st (getlines newline (save_text m))) \<and>
   out_map (foldl load_step st (getlines newline (save_text m)))
     = foldl (\<lambda>acc kv. map_assign (fst kv) (snd kv) acc) (out_map st) m"
proof (induction m arbitrary: st)
  case Nil
  then show ?case by (simp add: save_text_def getlines_Nil)
next
  case (Cons kv m)
  obtain k uk where kv: "kv = (k, uk)" by (cases kv)
  from Cons.prems have v: "valid_entry (k, uk)" and vm: "list_all valid_entry m" by (simp_all add: kv)
  let ?st' = "st\<lparr>out_map := map_assign k uk (out_map st),
                 in_entry := False, current_key := [], current_params := [], buffer := []\<rparr>"
  have s: "save_text (kv # m) = write_entry (k, uk) @ save_text m" by (simp add: save_text_def kv)
  have n: "\<not> in_entry ?st'" by simp
  show ?case
    unfolding s written_entry_loaded [OF Cons.prems(1) v]
    using Cons.IH [OF n vm] by (simp add: kv del: map_assign.simps)
qed

lemma map_assign_behind:
  "sorted_wrt (<) (map fst (acc @ [(k, v)])) \<Longrightarrow> map_assign k v acc = acc @ [(k, v)]"
  by (induction acc) (auto simp: sorted_wrt_append)

lemma map_assign_all_sorted:
  "sorted_wrt (<) (map fst (acc @ m)) \<Longrightarrow>
   foldl (\<lambda>acc kv. map_assign (fst kv) (snd kv) acc) acc m = acc @ m"
proof (induction m arbitrary: acc)
  case Nil
  show ?case by simp
next
  case (Cons kv m)
  have "sorted_wrt (<) (map fst (acc @ [(fst kv, snd kv)]))"
    using Cons.prems by (simp add: sorted_wrt_append)
  then have a: "map_assign (fst kv) (snd kv) acc = acc @ [kv]"
    using map_assign_behind [of acc "fst kv" "snd kv"] by simp
  have "sorted_wrt (<) (map fst ((acc @ [kv]) @ m))" using Cons.prems by simp
  from Cons.IH [OF this] show ?case by (simp add: a del: map_assign.simps)
qed

lemma load_save_text:
  assumes "valid_store m"
  shows "load_user_keywords (Some (save_text m)) = m"
proof -
  from assms have s: "sorted_wrt (<) (map fst ([] @ m))" and v: "list_all valid_entry m"
    by (simp_all add: valid_store_def map_ok_def)
  have n: "\<not> in_entry load_init" by (simp add: load_init_def)
  from written_store_loaded [OF n v]
  have "load_lines (getlines newline (save_text m))
          = foldl (\<lambda>acc kv. map_assign (fst kv) (snd kv) acc) [] m"
    by (simp add: load_lines_def load_finish_def load_init_def)
  also have "\<dots> = [] @ m" using s by (rule map_assign_all_sorted)
  finally show ?thesis by (simp add: load_user_keywords_def)
qed

text \<open>
  C1, as stated, fails: the format does not escape its markers, also not inside a body. The
  store below meets the stated conditions on names and parameter names; its body holds a
  line that is the end marker (the definition flow accepts any line but a single dot), and
  loading the saved file cuts the body at that line.
\<close>

theorem round_trip_counterexample:
  "claimed_store [(''k'', \<lparr>snippet = ''a'' @ [newline] @ ''===END==='' @ [newline] @ ''b'' @ [newline],
                          params = []\<rparr>)]
   \<and> load_user_keywords (snd (save_user_keywords
        [(''k'', \<lparr>snippet = ''a'' @ [newline] @ ''===END==='' @ [newline] @ ''b'' @ [newline],
                 params = []\<rparr>)] True None))
     = [(''k'', \<lparr>snippet = ''a'' @ [newline], params = []\<rparr>)]
   \<and> load_user_keywords (snd (save_user_keywords
        [(''k'', \<lparr>snippet = ''a'' @ [newline] @ ''===END==='' @ [newline] @ ''b'' @ [newline],
                 params = []\<rparr>)] True None))
     \<noteq> [(''k'', \<lparr>snippet = ''a'' @ [newline] @ ''===END==='' @ [newline] @ ''b'' @ [newline],
                          params = []\<rparr>)]"
  by code_simp

text \<open>
  C1, amended. For every store in which every macro name is not empty and has no line break
  and no white space at either end, every parameter name is not empty and has no comma, no
  equals sign, no line break and no white space at either end, every default has no comma,
  no line break and no white space at either end, and every body is empty or ends with a
  line break and has no line that is the end marker or begins with the \<open>PARAMS\<close> marker:
  saving succeeds when the file can be written, and loading the saved file yields exactly
  the same store.
\<close>

theorem round_trip:
  assumes "valid_store m"
  shows "save_user_keywords m True old = (True, Some (save_text m))
         \<and> load_user_keywords (snd (save_user_keywords m True old)) = m"
  using load_save_text [OF assms] by (simp add: save_user_keywords_def)

theorem round_trip_witness:
  "valid_store
     [(''swap'', \<lparr>snippet = ''#include <utility>'' @ [newline] @ ''std::swap({a},{b});'' @ [newline],
                  params = [(''a'', ''x''), (''b'', '''')]\<rparr>),
      (''zero'', \<lparr>snippet = [], params = []\<rparr>)]
   \<and> load_user_keywords (snd (save_user_keywords
     [(''swap'', \<lparr>snippet = ''#include <utility>'' @ [newline] @ ''std::swap({a},{b});'' @ [newline],
                  params = [(''a'', ''x''), (''b'', '''')]\<rparr>),
      (''zero'', \<lparr>snippet = [], params = []\<rparr>)] True None))
     = [(''swap'', \<lparr>snippet = ''#include <utility>'' @ [newline] @ ''std::swap({a},{b});'' @ [newline],
                  params = [(''a'', ''x''), (''b'', '''')]\<rparr>),
      (''zero'', \<lparr>snippet = [], params = []\<rparr>)]"
proof -
  have v: "valid_store
     [(''swap'', \<lparr>snippet = ''#include <utility>'' @ [newline] @ ''std::swap({a},{b});'' @ [newline],
                  params = [(''a'', ''x''), (''b'', '''')]\<rparr>),
      (''zero'', \<lparr>snippet = [], params = []\<rparr>)]"
    by code_simp
  from round_trip [OF v, of None] v show ?thesis by blast
qed

section \<open>Builtin names and stored names\<close>

lemma store_disjoint_iff: "store_disjoint uks \<longleftrightarrow> (\<forall>k. map_has k uks \<longrightarrow> \<not> is_cpp17_keyword k)"
  by (auto simp: store_disjoint_def map_keys_def list_all_iff map_has_iff)

lemma store_disjoint_assign:
  "store_disjoint uks \<Longrightarrow> \<not> is_cpp17_keyword k \<Longrightarrow> store_disjoint (map_assign k v uks)"
  by (simp add: store_disjoint_iff map_has_map_assign)

lemma store_disjoint_erase: "store_disjoint uks \<Longrightarrow> store_disjoint (map_erase k uks)"
  by (auto simp: store_disjoint_def map_keys_def list_all_iff map_erase_def)

lemma map_find_has: "map_find k m = Some v \<Longrightarrow> map_has k m"
  by (simp add: map_has_def)

lemma define_flow_store:
  "define_flow name uks w = Inr (uks', w') \<Longrightarrow> \<exists>uk. uks' = map_assign name uk uks"
  by (auto simp: define_flow_def store_and_save_def Let_def split: sum.splits prod.splits)

lemma define_or_exit_disjoint:
  "store_disjoint uks \<Longrightarrow> \<not> is_cpp17_keyword name \<Longrightarrow>
   define_or_exit name uks w = Running uks' w' \<Longrightarrow> store_disjoint uks'"
  using define_flow_store [of name uks w]
  by (auto simp: define_or_exit_def eof_define_def store_disjoint_assign split: sum.splits)

lemma cmd_add_disjoint:
  "store_disjoint uks \<Longrightarrow> cmd_add uks w = Running uks' w' \<Longrightarrow> store_disjoint uks'"
  unfolding cmd_add_def Let_def
  by (auto simp: eof_define_def split: sum.splits prod.splits if_splits
           dest: define_or_exit_disjoint)

lemma cmd_add_conflict:
  "ask ''mykw'' (stdin w) = Inr (answer, rest) \<Longrightarrow> is_cpp17_keyword (normalize_token answer) \<Longrightarrow>
   cmd_add uks w = Running uks (say conflict_msg (w\<lparr>stdin := rest\<rparr>))"
proof -
  assume a: "ask ''mykw'' (stdin w) = Inr (answer, rest)" and k: "is_cpp17_keyword (normalize_token answer)"
  from k have "normalize_token answer \<noteq> []" by (auto simp: is_cpp17_keyword_def cpp17_keywords_def)
  with a k show ?thesis by (simp add: cmd_add_def Let_def)
qed

lemma store_disjoint_overwrite:
  "store_disjoint uks \<Longrightarrow> map_find k uks = Some v \<Longrightarrow> store_disjoint (map_assign k v' uks)"
  using map_find_has [of k uks v] by (auto simp: store_disjoint_iff map_has_map_assign)

lemma cmd_edit_disjoint:
  "store_disjoint uks \<Longrightarrow> cmd_edit uks w arg = Running uks' w' \<Longrightarrow> store_disjoint uks'"
  unfolding cmd_edit_def Let_def
  by (auto simp: store_disjoint_overwrite split: sum.splits prod.splits if_splits option.splits)

lemma cmd_remove_disjoint:
  "store_disjoint uks \<Longrightarrow> cmd_remove uks w arg = Running uks' w' \<Longrightarrow> store_disjoint uks'"
  unfolding cmd_remove_def Let_def
  by (auto simp: store_disjoint_erase split: if_splits)

lemma cmd_search_store: "cmd_search uks w arg = Running uks' w' \<Longrightarrow> uks' = uks"
  unfolding cmd_search_def by (auto split: sum.splits prod.splits if_splits)

lemma run_command_disjoint:
  "store_disjoint uks \<Longrightarrow> run_command uks w trimmed = Running uks' w' \<Longrightarrow> store_disjoint uks'"
  unfolding run_command_def Let_def
  by (auto split: if_splits dest: cmd_add_disjoint cmd_edit_disjoint cmd_remove_disjoint cmd_search_store)

lemma offer_definition_disjoint:
  "store_disjoint uks \<Longrightarrow> offer_definition raw uks w = Inr (uks', w') \<Longrightarrow> store_disjoint uks'"
  unfolding offer_definition_def Let_def
  by (auto simp: store_disjoint_assign split: sum.splits prod.splits if_splits dest!: define_flow_store)

lemma offer_definitions_disjoint:
  "store_disjoint uks \<Longrightarrow> offer_definitions ts uks w = Inr (uks', w') \<Longrightarrow> store_disjoint uks'"
proof (induction ts arbitrary: uks w)
  case Nil
  then show ?case by simp
next
  case (Cons raw ts)
  from Cons.prems(2) obtain u1 w1 where o: "offer_definition raw uks w = Inr (u1, w1)"
    and r: "offer_definitions ts u1 w1 = Inr (uks', w')"
    by (auto split: sum.splits prod.splits)
  from offer_definition_disjoint [OF Cons.prems(1) o] have "store_disjoint u1" .
  from Cons.IH [OF this r] show ?case .
qed

lemma generate_for_line_store:
  "generate_for_line builtin uks w occs = Running uks' w' \<Longrightarrow> uks' = uks"
  unfolding generate_for_line_def by (auto split: if_splits sum.splits prod.splits exn.splits)

lemma process_line_disjoint:
  "store_disjoint uks \<Longrightarrow> process_line builtin uks w trimmed = Running uks' w' \<Longrightarrow> store_disjoint uks'"
  unfolding process_line_def Let_def
  by (auto split: sum.splits prod.splits dest: offer_definitions_disjoint generate_for_line_store)

lemma main_step_disjoint:
  "store_disjoint uks \<Longrightarrow> main_step builtin uks w = Running uks' w' \<Longrightarrow> store_disjoint uks'"
  unfolding main_step_def Let_def
  by (auto split: list.splits if_splits dest: run_command_disjoint process_line_disjoint)

lemma reaches_disjoint:
  "reaches builtin start st \<Longrightarrow> store_disjoint (fst start) \<Longrightarrow> store_disjoint (fst st)"
  by (induction rule: reaches.induct) (auto dest: main_step_disjoint)

text \<open>
  C6, as stated, fails: loading from disk does not preserve the invariant, because the
  loader never compares a name with the builtin set. From the empty store and no file the
  user defines \<open>foo\<close>, and among the lines of its body are the end marker and a \<open>KEYWORD\<close>
  marker for \<open>int\<close>. The store in memory is disjoint from the builtin set; the file that
  this definition saves loads, at the next start, into a store that holds the name \<open>int\<close>.
\<close>

theorem load_breaks_disjointness_counterexample:
  "main_step no_builtin []
     \<lparr>stdin = ['':add'', ''foo'', [], ''x;'', ''===END==='', ''===KEYWORD:int==='', ''y;'', ''.''],
      messages = [], db_file = None, writable = True\<rparr>
   = Running [(''foo'', \<lparr>snippet = ''x;'' @ [newline] @ ''===END==='' @ [newline]
                                     @ ''===KEYWORD:int==='' @ [newline] @ ''y;'' @ [newline],
                          params = []\<rparr>)]
       \<lparr>stdin = [], messages = [saved_msg ''foo'' 0],
        db_file = Some (''===KEYWORD:foo==='' @ [newline] @ ''x;'' @ [newline] @ ''===END==='' @ [newline]
                        @ ''===KEYWORD:int==='' @ [newline] @ ''y;'' @ [newline] @ ''===END==='' @ [newline]),
        writable = True\<rparr>
   \<and> store_disjoint [(''foo'', \<lparr>snippet = ''x;'' @ [newline] @ ''===END==='' @ [newline]
                                     @ ''===KEYWORD:int==='' @ [newline] @ ''y;'' @ [newline],
                          params = []\<rparr>)]
   \<and> load_user_keywords
        (Some (''===KEYWORD:foo==='' @ [newline] @ ''x;'' @ [newline] @ ''===END==='' @ [newline]
               @ ''===KEYWORD:int==='' @ [newline] @ ''y;'' @ [newline] @ ''===END==='' @ [newline]))
     = [(''foo'', \<lparr>snippet = ''x;'' @ [newline], params = []\<rparr>),
        (''int'', \<lparr>snippet = ''y;'' @ [newline], params = []\<rparr>)]
   \<and> \<not> store_disjoint
        (load_user_keywords
          (Some (''===KEYWORD:foo==='' @ [newline] @ ''x;'' @ [newline] @ ''===END==='' @ [newline]
               @ ''===KEYWORD:int==='' @ [newline] @ ''y;'' @ [newline] @ ''===END==='' @ [newline])))"
  by code_simp

text \<open>
  C6, amended. From a store that shares no name with the builtin set, every turn of the
  interactive loop (define by \<open>:add\<close> or by the offer for an unknown token, edit, remove, or
  any other line) leads to such a store again, and so does every state that the loop
  reaches. A definition whose normalized name is a builtin keyword is rejected with the
  conflict message, and store and file stay as they are. Loading checks no name; it yields
  a disjoint store when the file was saved from a disjoint store that the format holds
  without loss.
\<close>

theorem store_stays_disjoint:
  assumes "store_disjoint uks"
  shows "(main_step builtin uks w = Running uks' w' \<longrightarrow> store_disjoint uks')
       \<and> (reaches builtin (uks, w) (uks2, w2) \<longrightarrow> store_disjoint uks2)
       \<and> (ask ''mykw'' (stdin w) = Inr (answer, rest) \<and> is_cpp17_keyword (normalize_token answer)
            \<longrightarrow> cmd_add uks w = Running uks (say conflict_msg (w\<lparr>stdin := rest\<rparr>))
                \<and> db_file (say conflict_msg (w\<lparr>stdin := rest\<rparr>)) = db_file w)
       \<and> (valid_store uks
            \<longrightarrow> store_disjoint (load_user_keywords (snd (save_user_keywords uks True old))))"
proof -
  have 1: "main_step builtin uks w = Running uks' w' \<longrightarrow> store_disjoint uks'"
    using assms main_step_disjoint by blast
  have 2: "reaches builtin (uks, w) (uks2, w2) \<longrightarrow> store_disjoint uks2"
    using assms reaches_disjoint [of builtin "(uks, w)" "(uks2, w2)"] by simp
  have 3: "ask ''mykw'' (stdin w) = Inr (answer, rest) \<and> is_cpp17_keyword (normalize_token answer)
            \<longrightarrow> cmd_add uks w = Running uks (say conflict_msg (w\<lparr>stdin := rest\<rparr>))
                \<and> db_file (say conflict_msg (w\<lparr>stdin := rest\<rparr>)) = db_file w"
    using cmd_add_conflict [of w answer rest uks] by (simp add: say_def)
  have 4: "valid_store uks
            \<longrightarrow> store_disjoint (load_user_keywords (snd (save_user_keywords uks True old)))"
    using assms load_save_text [of uks] by (simp add: save_user_keywords_def)
  from 1 2 3 4 show ?thesis by blast
qed

theorem store_stays_disjoint_witness:
  "store_disjoint [(''foo'', \<lparr>snippet = ''x;'' @ [newline], params = []\<rparr>)]
   \<and> valid_store [(''foo'', \<lparr>snippet = ''x;'' @ [newline], params = []\<rparr>)]
   \<and> ask ''mykw'' [''(INT);''] = Inr (''(INT);'', [])
   \<and> is_cpp17_keyword (normalize_token ''(INT);'')
   \<and> main_step no_builtin [(''foo'', \<lparr>snippet = ''x;'' @ [newline], params = []\<rparr>)]
        \<lparr>stdin = ['':add'', ''(INT);''], messages = [], db_file = None, writable = True\<rparr>
      = Running [(''foo'', \<lparr>snippet = ''x;'' @ [newline], params = []\<rparr>)]
          \<lparr>stdin = [], messages = [conflict_msg], db_file = None, writable = True\<rparr>
   \<and> cmd_add [(''foo'', \<lparr>snippet = ''x;'' @ [newline], params = []\<rparr>)]
        \<lparr>stdin = [''(INT);''], messages = [], db_file = None, writable = True\<rparr>
      = Running [(''foo'', \<lparr>snippet = ''x;'' @ [newline], params = []\<rparr>)]
          \<lparr>stdin = [], messages = [conflict_msg], db_file = None, writable = True\<rparr>
   \<and> reaches no_builtin
        ([(''foo'', \<lparr>snippet = ''x;'' @ [newline], params = []\<rparr>)],
         \<lparr>stdin = ['':add'', ''(INT);''], messages = [], db_file = None, writable = True\<rparr>)
        ([(''foo'', \<lparr>snippet = ''x;'' @ [newline], params = []\<rparr>)],
         \<lparr>stdin = [], messages = [conflict_msg], db_file = None, writable = True\<rparr>)
   \<and> store_disjoint (load_user_keywords (snd (save_user_keywords
        [(''foo'', \<lparr>snippet = ''x;'' @ [newline], params = []\<rparr>)] True None)))"
proof -
  let ?u = "[(''foo'', \<lparr>snippet = ''x;'' @ [newline], params = []\<rparr>)]"
  let ?w = "\<lparr>stdin = ['':add'', ''(INT);''], messages = [], db_file = None, writable = True\<rparr>"
  let ?w1 = "\<lparr>stdin = [''(INT);''], messages = [], db_file = None, writable = True\<rparr>"
  let ?w' = "\<lparr>stdin = [], messages = [conflict_msg], db_file = None, writable = True\<rparr>"
  have d: "store_disjoint ?u" by code_simp
  have v: "valid_store ?u" by code_simp
  have a: "ask ''mykw'' [''(INT);''] = Inr (''(INT);'', [])" by code_simp
  have k: "is_cpp17_keyword (normalize_token ''(INT);'')" by code_simp
  have m: "main_step no_builtin ?u ?w = Running ?u ?w'" by code_simp
  have r: "reaches no_builtin (?u, ?w) (?u, ?w')"
    using reaches_step [OF reaches_start m] .
  have c: "cmd_add ?u ?w1 = Running ?u ?w'"
    using store_stays_disjoint [OF d, of no_builtin ?w1 ?u ?w' ?u ?w' "''(INT);''" "[]" None] a k
    by (simp add: say_def)
  have l: "store_disjoint (load_user_keywords (snd (save_user_keywords ?u True None)))"
    using store_stays_disjoint [OF d, of no_builtin ?w ?u ?w' ?u ?w' "''(INT);''" "[]" None] v
    by blast
  from d v a k m c r l show ?thesis by blast
qed

section \<open>End of input during the prompts\<close>

lemma prompt_at_end: "prompt_opt [] = Inl EOFExit" "ask def [] = Inl EOFExit"
  by (simp_all add: prompt_opt_def ask_def)

lemma dispatch_occurrences_append:
  "dispatch_occurrences builtin uks (occs1 @ occs2) i ctx aggregated inp =
     (case dispatch_occurrences builtin uks occs1 i ctx aggregated inp of
        Inl e \<Rightarrow> Inl e
      | Inr (aggregated', ctx', inp') \<Rightarrow>
          dispatch_occurrences builtin uks occs2 (i + length occs1) ctx' aggregated' inp')"
proof (induction occs1 arbitrary: i ctx aggregated inp)
  case Nil
  show ?case by simp
next
  case (Cons o1 occs1)
  obtain kw token_pos where o1: "o1 = (kw, token_pos)" by (cases o1)
  show ?case
    unfolding o1 by (simp add: Cons.IH split: sum.splits prod.splits)
qed

lemma dispatch_eof:
  assumes "dispatch_occurrences builtin uks handled 0 empty_context empty_parts inp0
             = Inr (partial, ctx, inp)"
    and "generate_parts_for_keyword_occurrence builtin kw ctx (length handled + 1) token_pos uks inp
             = Inl EOFExit"
  shows "dispatch_occurrences builtin uks (handled @ (kw, token_pos) # rest) 0 empty_context empty_parts inp0
             = Inl EOFExit"
  using assms by (simp add: dispatch_occurrences_append)

lemma macro_prompt_eof:
  "map_find kw uks = Some uk \<Longrightarrow> params uk \<noteq> [] \<Longrightarrow>
   generate_parts_for_keyword_occurrence builtin kw ctx i token_pos uks [] = Inl EOFExit"
  by (cases "params uk") (auto simp: generate_parts_for_keyword_occurrence_def prompt_at_end)

text \<open>
  C10, as stated, fails in its last part: control does not return to the loop. The store
  holds the macro \<open>m\<close> with one parameter; the input is the line \<open>m m\<close> and one more line.
  The first occurrence gets its value, the prompt of the second meets the end of input, and
  \<^verbatim>\<open>main\<close> returns 0 after the cancellation message: the turn ends the run.
\<close>

theorem eof_exits_counterexample:
  "main_step no_builtin [(''m'', \<lparr>snippet = ''{p};'' @ [newline], params = [(''p'', ''1'')]\<rparr>)]
     \<lparr>stdin = [''m m'', ''5''], messages = [], db_file = None, writable = True\<rparr>
   = Exited 0 [eof_followup_msg] None
   \<and> \<not> returns_to_loop
        (main_step no_builtin [(''m'', \<lparr>snippet = ''{p};'' @ [newline], params = [(''p'', ''1'')]\<rparr>)]
           \<lparr>stdin = [''m m'', ''5''], messages = [], db_file = None, writable = True\<rparr>)"
  by code_simp

text \<open>
  C10, amended. Let an input line that is neither empty, nor a command, nor \<open>exit\<close> pass the
  offers for unknown tokens, and let its occurrences be \<open>handled\<close>, then \<open>(kw, token_pos)\<close>,
  then \<open>rest\<close>. If the occurrences \<open>handled\<close> are dispatched without an exception and a
  prompt of the next occurrence meets the end of input, then the turn ends the run with exit
  status 0: the aggregate built so far is dropped, the only message added is the
  cancellation message (no program is shown), the keyword file is the one the dispatch
  started with, and control does not return to the loop.
\<close>

theorem eof_aborts_line:
  assumes "stdin w = line # later"
    and "trim line \<noteq> []" "hd (trim line) \<noteq> CHR '':''" "trim line \<noteq> ''exit''"
    and "offer_definitions (tokenize (trim line)) uks (w\<lparr>stdin := later\<rparr>) = Inr (uks1, w1)"
    and "build_occurrences uks1 0 (tokenize (trim line)) = handled @ (kw, token_pos) # rest"
    and "dispatch_occurrences builtin uks1 handled 0 empty_context empty_parts (stdin w1)
             = Inr (partial, ctx, inp)"
    and "generate_parts_for_keyword_occurrence builtin kw ctx (length handled + 1) token_pos uks1 inp
             = Inl EOFExit"
  shows "main_step builtin uks w = Exited 0 (messages w1 @ [eof_followup_msg]) (db_file w1)
         \<and> \<not> returns_to_loop (main_step builtin uks w)"
proof -
  have d: "dispatch_occurrences builtin uks1 (handled @ (kw, token_pos) # rest) 0 empty_context
             empty_parts (stdin w1) = Inl EOFExit"
    using assms(7,8) by (rule dispatch_eof)
  have "main_step builtin uks w = process_line builtin uks (w\<lparr>stdin := later\<rparr>) (trim line)"
    using assms(1-4) by (simp add: main_step_def Let_def)
  also have "\<dots> = generate_for_line builtin uks1 w1 (handled @ (kw, token_pos) # rest)"
    using assms(5,6) by (simp add: process_line_def)
  also have "\<dots> = Exited 0 (messages w1 @ [eof_followup_msg]) (db_file w1)"
    using d by (simp add: generate_for_line_def)
  finally show ?thesis by (simp add: returns_to_loop_def)
qed

theorem eof_aborts_line_witness:
  "main_step no_builtin [(''m'', \<lparr>snippet = ''{p};'' @ [newline], params = [(''p'', ''1'')]\<rparr>)]
     \<lparr>stdin = ['' m m'', ''5''], messages = [], db_file = Some ''old'', writable = True\<rparr>
   = Exited 0 [eof_followup_msg] (Some ''old'')
   \<and> dispatch_occurrences no_builtin
        [(''m'', \<lparr>snippet = ''{p};'' @ [newline], params = [(''p'', ''1'')]\<rparr>)]
        [(''m'', 1)] 0 empty_context empty_parts [''5'']
      = Inr (\<lparr>p_includes = [], p_top = [],
               p_body = [snippet_header (occurrence_tag 1 1), ''5;'']\<rparr>, empty_context, [])
   \<and> generate_parts_for_keyword_occurrence no_builtin ''m'' empty_context 2 2
        [(''m'', \<lparr>snippet = ''{p};'' @ [newline], params = [(''p'', ''1'')]\<rparr>)] []
      = Inl EOFExit"
proof -
  let ?u = "[(''m'', \<lparr>snippet = ''{p};'' @ [newline], params = [(''p'', ''1'')]\<rparr>)]"
  let ?w = "\<lparr>stdin = ['' m m'', ''5''], messages = [], db_file = Some ''old'', writable = True\<rparr>"
  let ?w1 = "\<lparr>stdin = [''5''], messages = [], db_file = Some ''old'', writable = True\<rparr>"
  let ?partial = "\<lparr>p_includes = [], p_top = [],
               p_body = [snippet_header (occurrence_tag 1 1), ''5;'']\<rparr>"
  have 1: "stdin ?w = '' m m'' # [''5'']" by simp
  have 2: "trim '' m m'' \<noteq> []" by code_simp
  have 3: "hd (trim '' m m'') \<noteq> CHR '':''" by code_simp
  have 4: "trim '' m m'' \<noteq> ''exit''" by code_simp
  have 5: "offer_definitions (tokenize (trim '' m m'')) ?u (?w\<lparr>stdin := [''5'']\<rparr>) = Inr (?u, ?w1)"
    by code_simp
  have 6: "build_occurrences ?u 0 (tokenize (trim '' m m'')) = [(''m'', 1)] @ (''m'', 2) # []"
    by code_simp
  have 7: "dispatch_occurrences no_builtin ?u [(''m'', 1)] 0 empty_context empty_parts (stdin ?w1)
             = Inr (?partial, empty_context, [])"
    by code_simp
  have 8: "generate_parts_for_keyword_occurrence no_builtin ''m'' empty_context
             (length [(''m'', 1::nat)] + 1) 2 ?u [] = Inl EOFExit"
    by code_simp
  have "main_step no_builtin ?u ?w = Exited 0 (messages ?w1 @ [eof_followup_msg]) (db_file ?w1)"
    using eof_aborts_line [OF 1 2 3 4 5 6 7 8] by blast
  then have r: "main_step no_builtin ?u ?w = Exited 0 [eof_followup_msg] (Some ''old'')"
    by simp
  have d: "dispatch_occurrences no_builtin ?u [(''m'', 1)] 0 empty_context empty_parts [''5'']
             = Inr (?partial, empty_context, [])"
    by code_simp
  have g: "generate_parts_for_keyword_occurrence no_builtin ''m'' empty_context 2 2 ?u []
             = Inl EOFExit"
    by code_simp
  from r d g show ?thesis by blast
qed

end
